theory Spec2Isabelle
  imports Complex_Main "HOL-Library.Word"
begin

section \<open>Japanese context analysis (JpCntx.cpp)\<close>

text \<open>
  A shallow embedding of \<^verbatim>\<open>extensions/universalchardet/src/base/JpCntx.cpp\<close>:
  the hiragana 2-char sequence table, the two \<^verbatim>\<open>GetOrder\<close> decoders and the
  stateful \<^verbatim>\<open>JapaneseContextAnalysis\<close> with \<^verbatim>\<open>HandleData\<close>,
  \<^verbatim>\<open>Reset\<close> and \<^verbatim>\<open>GetConfidence\<close>.

  Conventions.
  \<^item> \<^verbatim>\<open>uint32_t\<close> and \<^verbatim>\<open>uint8_t\<close> are \<open>32 word\<close> and \<open>8 word\<close>; \<open>+\<close> and \<open>-\<close>
    wrap, \<open>\<le>\<close> and \<open><\<close> compare unsigned.
  \<^item> \<^verbatim>\<open>int32_t\<close> orders are \<open>int\<close>: the only values the code ever stores are \<open>-1\<close> and
    a difference of two bytes.
  \<^item> A chunk \<^verbatim>\<open>(aBuf, aLen)\<close> is a list of bytes, \<^verbatim>\<open>aLen\<close> its length; \<^verbatim>\<open>aBuf+i\<close> is
    the list together with the offset \<open>i\<close>.
  \<^item> \<^verbatim>\<open>HandleData\<close> is embedded twice. The checked call (\<open>HandleData\<close>) stops with an
    error where the C++ program leaves defined behaviour: \<open>ReadPastEnd\<close> for a read at an
    offset that is not below the length, \<open>IndexOutOfRange\<close> for an array index out of
    range, \<open>OffsetOverflow\<close> where \<^verbatim>\<open>i += charLen\<close> would leave the range of \<^verbatim>\<open>uint32_t\<close>. It
    is total. The call as executed (\<open>HandleData_exec\<close>) reads what memory holds after the
    chunk and lets the offset wrap, as the compiled program does; it may run forever.
    Where the checked call returns a state, the call as executed returns the same state
    (\<open>HandleData_exec_checked\<close>).
  \<^item> \<^verbatim>\<open>float\<close> confidence is a \<open>real\<close>: the quotient is the exact one, not the rounded one.
\<close>

type_synonym byte = "8 word"
type_synonym u32 = "32 word"

datatype error = ReadPastEnd | IndexOutOfRange | OffsetOverflow

subsection \<open>The frequency table\<close>

definition jp2CharContext :: "byte list list" where
  "jp2CharContext = [
   [0,0,0,2,0,0,0,0,0,0,0,0,0,0,0,0,0,0,0,0,0,0,0,0,0,0,0,0,0,0,0,0,0,0,0,0,0,0,0,1,0,0,0,0,0,0,0,0,0,0,0,0,0,0,0,0,0,0,0,0,0,0,0,0,0,0,0,1,0,0,0,1,0,0,0,0,0,0,0,0,0,0,1],
   [2,4,0,4,0,3,0,4,0,3,4,4,4,2,4,3,3,4,3,2,3,3,4,2,3,3,3,2,4,1,4,3,3,1,5,4,3,4,3,4,3,5,3,0,3,5,4,2,0,3,1,0,3,3,0,3,3,0,1,1,0,4,3,0,3,3,0,4,0,2,0,3,5,5,5,5,4,0,4,1,0,3,4],
   [0,0,1,0,0,0,0,0,0,0,0,0,0,0,0,0,0,0,0,0,0,0,0,0,0,0,0,0,0,0,0,0,0,0,1,0,0,0,0,0,0,0,0,0,0,0,0,0,0,0,0,0,0,0,0,0,0,0,0,0,0,0,0,0,0,0,0,0,0,0,0,0,0,0,0,0,0,0,0,0,0,0,2],
   [0,4,0,5,0,5,0,4,0,4,5,4,4,3,5,3,5,1,5,3,4,3,4,4,3,4,3,3,4,3,5,4,4,3,5,5,3,5,5,5,3,5,5,3,4,5,5,3,1,3,2,0,3,4,0,4,2,0,4,2,1,5,3,2,3,5,0,4,0,2,0,5,4,4,5,4,5,0,4,0,0,4,4],
   [0,0,0,0,0,0,0,0,0,0,0,0,0,0,0,0,0,0,0,0,0,0,0,0,0,0,0,0,0,0,0,0,0,0,0,0,0,0,0,0,0,0,0,0,0,0,0,0,0,0,0,0,0,0,0,0,0,0,0,0,0,0,0,0,0,0,0,0,0,0,0,0,0,0,0,0,0,0,0,0,0,0,0],
   [0,3,0,4,0,3,0,3,0,4,5,4,3,3,3,3,4,3,5,4,4,3,5,4,4,3,4,3,4,4,4,4,5,3,4,4,3,4,5,5,4,5,5,1,4,5,4,3,0,3,3,1,3,3,0,4,4,0,3,3,1,5,3,3,3,5,0,4,0,3,0,4,4,3,4,3,3,0,4,1,1,3,4],
   [0,0,0,0,0,0,0,0,0,0,0,0,0,0,0,0,0,0,0,0,0,0,0,0,0,0,0,0,0,0,0,0,0,0,1,0,0,0,0,0,0,0,0,0,0,0,0,0,0,0,0,0,0,0,0,0,0,0,0,0,0,0,0,0,0,0,0,0,0,0,0,0,0,0,0,0,0,0,0,0,0,0,0],
   [0,4,0,3,0,3,0,4,0,3,4,4,3,2,2,1,2,1,3,1,3,3,3,3,3,4,3,1,3,3,5,3,3,0,4,3,0,5,4,3,3,5,4,4,3,4,4,5,0,1,2,0,1,2,0,2,2,0,1,0,0,5,2,2,1,4,0,3,0,1,0,4,4,3,5,4,3,0,2,1,0,4,3],
   [0,0,0,0,0,0,0,0,0,0,0,0,0,0,0,0,0,0,0,0,0,0,0,0,0,0,0,0,0,0,0,0,0,0,0,0,0,0,0,1,0,0,0,0,0,0,0,0,0,0,0,0,0,0,0,0,0,0,0,0,0,0,0,0,0,0,0,0,0,0,0,0,0,0,0,0,0,0,0,0,0,0,0],
   [0,3,0,5,0,4,0,2,1,4,4,2,4,1,4,2,4,2,4,3,3,3,4,3,3,3,3,1,4,2,3,3,3,1,4,4,1,1,1,4,3,3,2,0,2,4,3,2,0,3,3,0,3,1,1,0,0,0,3,3,0,4,2,2,3,4,0,4,0,3,0,4,4,5,3,4,4,0,3,0,0,1,4],
   [1,4,0,4,0,4,0,4,0,3,5,4,4,3,4,3,5,4,3,3,4,3,5,4,4,4,4,3,4,2,4,3,3,1,5,4,3,2,4,5,4,5,5,4,4,5,4,4,0,3,2,2,3,3,0,4,3,1,3,2,1,4,3,3,4,5,0,3,0,2,0,4,5,5,4,5,4,0,4,0,0,5,4],
   [0,5,0,5,0,4,0,3,0,4,4,3,4,3,3,3,4,0,4,4,4,3,4,3,4,3,3,1,4,2,4,3,4,0,5,4,1,4,5,4,4,5,3,2,4,3,4,3,2,4,1,3,3,3,2,3,2,0,4,3,3,4,3,3,3,4,0,4,0,3,0,4,5,4,4,4,3,0,4,1,0,1,3],
   [0,3,1,4,0,3,0,2,0,3,4,4,3,1,4,2,3,3,4,3,4,3,4,3,4,4,3,2,3,1,5,4,4,1,4,4,3,5,4,4,3,5,5,4,3,4,4,3,1,2,3,1,2,2,0,3,2,0,3,1,0,5,3,3,3,4,3,3,3,3,4,4,4,4,5,4,2,0,3,3,2,4,3],
   [0,2,0,3,0,1,0,1,0,0,3,2,0,0,2,0,1,0,2,1,3,3,3,1,2,3,1,0,1,0,4,2,1,1,3,3,0,4,3,3,1,4,3,3,0,3,3,2,0,0,0,0,1,0,0,2,0,0,0,0,0,4,1,0,2,3,2,2,2,1,3,3,3,4,4,3,2,0,3,1,0,3,3],
   [0,4,0,4,0,3,0,3,0,4,4,4,3,3,3,3,3,3,4,3,4,2,4,3,4,3,3,2,4,3,4,5,4,1,4,5,3,5,4,5,3,5,4,0,3,5,5,3,1,3,3,2,2,3,0,3,4,1,3,3,2,4,3,3,3,4,0,4,0,3,0,4,5,4,4,5,3,0,4,1,0,3,4],
   [0,2,0,3,0,3,0,0,0,2,2,2,1,0,1,0,0,0,3,0,3,0,3,0,1,3,1,0,3,1,3,3,3,1,3,3,3,0,1,3,1,3,4,0,0,3,1,1,0,3,2,0,0,0,0,1,3,0,1,0,0,3,3,2,0,3,0,0,0,0,0,3,4,3,4,3,3,0,3,0,0,2,3],
   [2,3,0,3,0,2,0,1,0,3,3,4,3,1,3,1,1,1,3,1,4,3,4,3,3,3,0,0,3,1,5,4,3,1,4,3,2,5,5,4,4,4,4,3,3,4,4,4,0,2,1,1,3,2,0,1,2,0,0,1,0,4,1,3,3,3,0,3,0,1,0,4,4,4,5,5,3,0,2,0,0,4,4],
   [0,2,0,1,0,3,1,3,0,2,3,3,3,0,3,1,0,0,3,0,3,2,3,1,3,2,1,1,0,0,4,2,1,0,2,3,1,4,3,2,0,4,4,3,1,3,1,3,0,1,0,0,1,0,0,0,1,0,0,0,0,4,1,1,1,2,0,3,0,0,0,3,4,2,4,3,2,0,1,0,0,3,3],
   [0,1,0,4,0,5,0,4,0,2,4,4,2,3,3,2,3,3,5,3,3,3,4,3,4,2,3,0,4,3,3,3,4,1,4,3,2,1,5,5,3,4,5,1,3,5,4,2,0,3,3,0,1,3,0,4,2,0,1,3,1,4,3,3,3,3,0,3,0,1,0,3,4,4,4,5,5,0,3,0,1,4,5],
   [0,2,0,3,0,3,0,0,0,2,3,1,3,0,4,0,1,1,3,0,3,4,3,2,3,1,0,3,3,2,3,1,3,0,2,3,0,2,1,4,1,2,2,0,0,3,3,0,0,2,0,0,0,1,0,0,0,0,2,2,0,3,2,1,3,3,0,2,0,2,0,0,3,3,1,2,4,0,3,0,2,2,3],
   [2,4,0,5,0,4,0,4,0,2,4,4,4,3,4,3,3,3,1,2,4,3,4,3,4,4,5,0,3,3,3,3,2,0,4,3,1,4,3,4,1,4,4,3,3,4,4,3,1,2,3,0,4,2,0,4,1,0,3,3,0,4,3,3,3,4,0,4,0,2,0,3,5,3,4,5,2,0,3,0,0,4,5],
   [0,3,0,4,0,1,0,1,0,1,3,2,2,1,3,0,3,0,2,0,2,0,3,0,2,0,0,0,1,0,1,1,0,0,3,1,0,0,0,4,0,3,1,0,2,1,3,0,0,0,0,0,0,3,0,0,0,0,0,0,0,4,2,2,3,1,0,3,0,0,0,1,4,4,4,3,0,0,4,0,0,1,4],
   [1,4,1,5,0,3,0,3,0,4,5,4,4,3,5,3,3,4,4,3,4,1,3,3,3,3,2,1,4,1,5,4,3,1,4,4,3,5,4,4,3,5,4,3,3,4,4,4,0,3,3,1,2,3,0,3,1,0,3,3,0,5,4,4,4,4,4,4,3,3,5,4,4,3,3,5,4,0,3,2,0,4,4],
   [0,2,0,3,0,1,0,0,0,1,3,3,3,2,4,1,3,0,3,1,3,0,2,2,1,1,0,0,2,0,4,3,1,0,4,3,0,4,4,4,1,4,3,1,1,3,3,1,0,2,0,0,1,3,0,0,0,0,2,0,0,4,3,2,4,3,5,4,3,3,3,4,3,3,4,3,3,0,2,1,0,3,3],
   [0,2,0,4,0,3,0,2,0,2,5,5,3,4,4,4,4,1,4,3,3,0,4,3,4,3,1,3,3,2,4,3,0,3,4,3,0,3,4,4,2,4,4,0,4,5,3,3,2,2,1,1,1,2,0,1,5,0,3,3,2,4,3,3,3,4,0,3,0,2,0,4,4,3,5,5,0,0,3,0,2,3,3],
   [0,3,0,4,0,3,0,1,0,3,4,3,3,1,3,3,3,0,3,1,3,0,4,3,3,1,1,0,3,0,3,3,0,0,4,4,0,1,5,4,3,3,5,0,3,3,4,3,0,2,0,1,1,1,0,1,3,0,1,2,1,3,3,2,3,3,0,3,0,1,0,1,3,3,4,4,1,0,1,2,2,1,3],
   [0,1,0,4,0,4,0,3,0,1,3,3,3,2,3,1,1,0,3,0,3,3,4,3,2,4,2,0,1,0,4,3,2,0,4,3,0,5,3,3,2,4,4,4,3,3,3,4,0,1,3,0,0,1,0,0,1,0,0,0,0,4,2,3,3,3,0,3,0,0,0,4,4,4,5,3,2,0,3,3,0,3,5],
   [0,2,0,3,0,0,0,3,0,1,3,0,2,0,0,0,1,0,3,1,1,3,3,0,0,3,0,0,3,0,2,3,1,0,3,1,0,3,3,2,0,4,2,2,0,2,0,0,0,4,0,0,0,0,0,0,0,0,0,0,0,2,1,2,0,1,0,1,0,0,0,1,3,1,2,0,0,0,1,0,0,1,4],
   [0,3,0,3,0,5,0,1,0,2,4,3,1,3,3,2,1,1,5,2,1,0,5,1,2,0,0,0,3,3,2,2,3,2,4,3,0,0,3,3,1,3,3,0,2,5,3,4,0,3,3,0,1,2,0,2,2,0,3,2,0,2,2,3,3,3,0,2,0,1,0,3,4,4,2,5,4,0,3,0,0,3,5],
   [0,3,0,3,0,3,0,1,0,3,3,3,3,0,3,0,2,0,2,1,1,0,2,0,1,0,0,0,2,1,0,0,1,0,3,2,0,0,3,3,1,2,3,1,0,3,3,0,0,1,0,0,0,0,0,2,0,0,0,0,0,2,3,1,2,3,0,3,0,1,0,3,2,1,0,4,3,0,1,1,0,3,3],
   [0,4,0,5,0,3,0,3,0,4,5,5,4,3,5,3,4,3,5,3,3,2,5,3,4,4,4,3,4,3,4,5,5,3,4,4,3,4,4,5,4,4,4,3,4,5,5,4,2,3,4,2,3,4,0,3,3,1,4,3,2,4,3,3,5,5,0,3,0,3,0,5,5,5,5,4,4,0,4,0,1,4,4],
   [0,4,0,4,0,3,0,3,0,3,5,4,4,2,3,2,5,1,3,2,5,1,4,2,3,2,3,3,4,3,3,3,3,2,5,4,1,3,3,5,3,4,4,0,4,4,3,1,1,3,1,0,2,3,0,2,3,0,3,0,0,4,3,1,3,4,0,3,0,2,0,4,4,4,3,4,5,0,4,0,0,3,4],
   [0,3,0,3,0,3,1,2,0,3,4,4,3,3,3,0,2,2,4,3,3,1,3,3,3,1,1,0,3,1,4,3,2,3,4,4,2,4,4,4,3,4,4,3,2,4,4,3,1,3,3,1,3,3,0,4,1,0,2,2,1,4,3,2,3,3,5,4,3,3,5,4,4,3,3,0,4,0,3,2,2,4,4],
   [0,2,0,1,0,0,0,0,0,1,2,1,3,0,0,0,0,0,2,0,1,2,1,0,0,1,0,0,0,0,3,0,0,1,0,1,1,3,1,0,0,0,1,1,0,1,1,0,0,0,0,0,2,0,0,0,0,0,0,0,0,1,1,2,2,0,3,4,0,0,0,1,1,0,0,1,0,0,0,0,0,1,1],
   [0,1,0,0,0,1,0,0,0,0,4,0,4,1,4,0,3,0,4,0,3,0,4,0,3,0,3,0,4,1,5,1,4,0,0,3,0,5,0,5,2,0,1,0,0,0,2,1,4,0,1,3,0,0,3,0,0,3,1,1,4,1,0,0,0,0,0,0,0,0,0,0,0,0,1,0,0,0,0,0,0,0,0],
   [1,4,0,5,0,3,0,2,0,3,5,4,4,3,4,3,5,3,4,3,3,0,4,3,3,3,3,3,3,2,4,4,3,1,3,4,4,5,4,4,3,4,4,1,3,5,4,3,3,3,1,2,2,3,3,1,3,1,3,3,3,5,3,3,4,5,0,3,0,3,0,3,4,3,4,4,3,0,3,0,2,4,3],
   [0,1,0,4,0,0,0,0,0,1,4,0,4,1,4,2,4,0,3,0,1,0,1,0,0,0,0,0,2,0,3,1,1,1,0,3,0,0,0,1,2,1,0,0,1,1,1,1,0,1,0,0,0,1,0,0,3,0,0,0,0,3,2,0,2,2,0,1,0,0,0,2,3,2,3,3,0,0,0,0,2,1,0],
   [0,5,1,5,0,3,0,3,0,5,4,4,5,1,5,3,3,0,4,3,4,3,5,3,4,3,3,2,4,3,4,3,3,0,3,3,1,4,4,3,4,4,4,3,4,5,5,3,2,3,1,1,3,3,1,3,1,1,3,3,2,4,5,3,3,5,0,4,0,3,0,4,4,3,5,3,3,0,3,4,0,4,3],
   [0,5,0,5,0,3,0,2,0,4,4,3,5,2,4,3,3,3,4,4,4,3,5,3,5,3,3,1,4,0,4,3,3,0,3,3,0,4,4,4,4,5,4,3,3,5,5,3,2,3,1,2,3,2,0,1,0,0,3,2,2,4,4,3,1,5,0,4,0,3,0,4,3,1,3,2,1,0,3,3,0,3,3],
   [0,4,0,5,0,5,0,4,0,4,5,5,5,3,4,3,3,2,5,4,4,3,5,3,5,3,4,0,4,3,4,4,3,2,4,4,3,4,5,4,4,5,5,0,3,5,5,4,1,3,3,2,3,3,1,3,1,0,4,3,1,4,4,3,4,5,0,4,0,2,0,4,3,4,4,3,3,0,4,0,0,5,5],
   [0,4,0,4,0,5,0,1,1,3,3,4,4,3,4,1,3,0,5,1,3,0,3,1,3,1,1,0,3,0,3,3,4,0,4,3,0,4,4,4,3,4,4,0,3,5,4,1,0,3,0,0,2,3,0,3,1,0,3,1,0,3,2,1,3,5,0,3,0,1,0,3,2,3,3,4,4,0,2,2,0,4,4],
   [2,4,0,5,0,4,0,3,0,4,5,5,4,3,5,3,5,3,5,3,5,2,5,3,4,3,3,4,3,4,5,3,2,1,5,4,3,2,3,4,5,3,4,1,2,5,4,3,0,3,3,0,3,2,0,2,3,0,4,1,0,3,4,3,3,5,0,3,0,1,0,4,5,5,5,4,3,0,4,2,0,3,5],
   [0,5,0,4,0,4,0,2,0,5,4,3,4,3,4,3,3,3,4,3,4,2,5,3,5,3,4,1,4,3,4,4,4,0,3,5,0,4,4,4,4,5,3,1,3,4,5,3,3,3,3,3,3,3,0,2,2,0,3,3,2,4,3,3,3,5,3,4,1,3,3,5,3,2,0,0,0,0,4,3,1,3,3],
   [0,1,0,3,0,3,0,1,0,1,3,3,3,2,3,3,3,0,3,0,0,0,3,1,3,0,0,0,2,2,2,3,0,0,3,2,0,1,2,4,1,3,3,0,0,3,3,3,0,1,0,0,2,1,0,0,3,0,3,1,0,3,0,0,1,3,0,2,0,1,0,3,3,1,3,3,0,0,1,1,0,3,3],
   [0,2,0,3,0,2,1,4,0,2,2,3,1,1,3,1,1,0,2,0,3,1,2,3,1,3,0,0,1,0,4,3,2,3,3,3,1,4,2,3,3,3,3,1,0,3,1,4,0,1,1,0,1,2,0,1,1,0,1,1,0,3,1,3,2,2,0,1,0,0,0,2,3,3,3,1,0,0,0,0,0,2,3],
   [0,5,0,4,0,5,0,2,0,4,5,5,3,3,4,3,3,1,5,4,4,2,4,4,4,3,4,2,4,3,5,5,4,3,3,4,3,3,5,5,4,5,5,1,3,4,5,3,1,4,3,1,3,3,0,3,3,1,4,3,1,4,5,3,3,5,0,4,0,3,0,5,3,3,1,4,3,0,4,0,1,5,3],
   [0,5,0,5,0,4,0,2,0,4,4,3,4,3,3,3,3,3,5,4,4,4,4,4,4,5,3,3,5,2,4,4,4,3,4,4,3,3,4,4,5,5,3,3,4,3,4,3,3,4,3,3,3,3,1,2,2,1,4,3,3,5,4,4,3,4,0,4,0,3,0,4,4,4,4,4,1,0,4,2,0,2,4],
   [0,4,0,4,0,3,0,1,0,3,5,2,3,0,3,0,2,1,4,2,3,3,4,1,4,3,3,2,4,1,3,3,3,0,3,3,0,0,3,3,3,5,3,3,3,3,3,2,0,2,0,0,2,0,0,2,0,0,1,0,0,3,1,2,2,3,0,3,0,2,0,4,4,3,3,4,1,0,3,0,0,2,4],
   [0,0,0,4,0,0,0,0,0,0,1,0,1,0,2,0,0,0,0,0,1,0,2,0,1,0,0,0,0,0,3,1,3,0,3,2,0,0,0,1,0,3,2,0,0,2,0,0,0,0,0,0,0,0,0,0,0,0,0,0,0,0,0,0,0,0,0,0,0,0,0,0,3,4,0,2,0,0,0,0,0,0,2],
   [0,2,1,3,0,2,0,2,0,3,3,3,3,1,3,1,3,3,3,3,3,3,4,2,2,1,2,1,4,0,4,3,1,3,3,3,2,4,3,5,4,3,3,3,3,3,3,3,0,1,3,0,2,0,0,1,0,0,1,0,0,4,2,0,2,3,0,3,3,0,3,3,4,2,3,1,4,0,1,2,0,2,3],
   [0,3,0,3,0,1,0,3,0,2,3,3,3,0,3,1,2,0,3,3,2,3,3,2,3,2,3,1,3,0,4,3,2,0,3,3,1,4,3,3,2,3,4,3,1,3,3,1,1,0,1,1,0,1,0,1,0,1,0,0,0,4,1,1,0,3,0,3,1,0,2,3,3,3,3,3,1,0,0,2,0,3,3],
   [0,0,0,0,0,0,0,0,0,0,3,0,2,0,3,0,0,0,0,0,0,0,3,0,0,0,0,0,0,0,3,0,3,0,3,1,0,1,0,1,0,0,1,0,0,0,0,0,0,0,0,0,0,0,0,0,0,0,0,0,0,0,0,0,0,0,0,0,3,0,2,0,2,3,0,0,0,0,0,0,0,0,3],
   [0,2,0,3,1,3,0,3,0,2,3,3,3,1,3,1,3,1,3,1,3,3,3,1,3,0,2,3,1,1,4,3,3,2,3,3,1,2,2,4,1,3,3,0,1,4,2,3,0,1,3,0,3,0,0,1,3,0,2,0,0,3,3,2,1,3,0,3,0,2,0,3,4,4,4,3,1,0,3,0,0,3,3],
   [0,2,0,1,0,2,0,0,0,1,3,2,2,1,3,0,1,1,3,0,3,2,3,1,2,0,2,0,1,1,3,3,3,0,3,3,1,1,2,3,2,3,3,1,2,3,2,0,0,1,0,0,0,0,0,0,3,0,1,0,0,2,1,2,1,3,0,3,0,0,0,3,4,4,4,3,2,0,2,0,0,2,4],
   [0,0,0,1,0,1,0,0,0,0,1,0,0,0,1,0,0,0,0,0,0,0,1,1,1,0,0,0,0,0,0,0,0,0,2,2,0,0,0,1,0,0,0,0,0,0,0,0,0,0,0,0,0,0,0,0,0,0,0,0,0,0,0,0,0,0,0,1,0,0,0,0,1,3,1,0,0,0,0,0,0,0,3],
   [0,3,0,3,0,2,0,3,0,3,3,3,2,3,2,2,2,0,3,1,3,3,3,2,3,3,0,0,3,0,3,2,2,0,2,3,1,4,3,4,3,3,2,3,1,5,4,4,0,3,1,2,1,3,0,3,1,1,2,0,2,3,1,3,1,3,0,3,0,1,0,3,3,4,4,2,1,0,2,1,0,2,4],
   [0,1,0,3,0,1,0,2,0,1,4,2,5,1,4,0,2,0,2,1,3,1,4,0,2,1,0,0,2,1,4,1,1,0,3,3,0,5,1,3,2,3,3,1,0,3,2,3,0,1,0,0,0,0,0,0,1,0,0,0,0,4,0,1,0,3,0,2,0,1,0,3,3,3,4,3,3,0,0,0,0,2,3],
   [0,0,0,1,0,0,0,0,0,0,2,0,1,0,0,0,0,0,1,0,0,0,0,0,0,0,0,0,0,0,3,0,0,0,0,0,0,1,0,0,0,0,0,0,0,0,0,0,0,0,0,0,0,0,0,0,0,0,0,0,0,0,0,0,0,0,0,0,0,0,0,0,2,1,0,0,1,0,0,0,0,0,3],
   [0,1,0,3,0,4,0,3,0,2,4,3,1,0,3,2,2,1,3,1,2,2,3,1,1,1,2,1,3,0,1,2,0,1,3,2,1,3,0,5,5,1,0,0,1,3,2,1,0,3,0,0,1,0,0,0,0,0,3,4,0,1,1,1,3,2,0,2,0,1,0,2,3,3,1,2,3,0,1,0,1,0,4],
   [0,0,0,1,0,3,0,3,0,2,2,1,0,0,4,0,3,0,3,1,3,0,3,0,3,0,1,0,3,0,3,1,3,0,3,3,0,0,1,2,1,1,1,0,1,2,0,0,0,1,0,0,1,0,0,0,0,0,0,0,0,2,2,1,2,0,0,2,0,0,0,0,2,3,3,3,3,0,0,0,0,1,4],
   [0,0,0,3,0,3,0,0,0,0,3,1,1,0,3,0,1,0,2,0,1,0,0,0,0,0,0,0,1,0,3,0,2,0,2,3,0,0,2,2,3,1,2,0,0,1,0,0,0,0,0,0,0,0,0,1,0,0,0,0,0,0,0,0,0,0,0,0,0,0,0,0,0,3,0,0,2,0,0,0,0,2,3],
   [2,4,0,5,0,5,0,4,0,3,4,3,3,3,4,3,3,3,4,3,4,4,5,4,5,5,5,2,3,0,5,5,4,1,5,4,3,1,5,4,3,4,4,3,3,4,3,3,0,3,2,0,2,3,0,3,0,0,3,3,0,5,3,2,3,3,0,3,0,3,0,3,4,5,4,5,3,0,4,3,0,3,4],
   [0,3,0,3,0,3,0,3,0,3,3,4,3,2,3,2,3,0,4,3,3,3,3,3,3,3,3,0,3,2,4,3,3,1,3,4,3,4,4,4,3,4,4,3,2,4,4,1,0,2,0,0,1,1,0,2,0,0,3,1,0,5,3,2,1,3,0,3,0,1,2,4,3,2,4,3,3,0,3,2,0,4,4],
   [0,3,0,3,0,1,0,0,0,1,4,3,3,2,3,1,3,1,4,2,3,2,4,2,3,4,3,0,2,2,3,3,3,0,3,3,3,0,3,4,1,3,3,0,3,4,3,3,0,1,1,0,1,0,0,0,4,0,3,0,0,3,1,2,1,3,0,4,0,1,0,4,3,3,4,3,3,0,2,0,0,3,3],
   [0,3,0,4,0,1,0,3,0,3,4,3,3,0,3,3,3,1,3,1,3,3,4,3,3,3,0,0,3,1,5,3,3,1,3,3,2,5,4,3,3,4,5,3,2,5,3,4,0,1,0,0,0,0,0,2,0,0,1,1,0,4,2,2,1,3,0,3,0,2,0,4,4,3,5,3,2,0,1,1,0,3,4],
   [0,5,0,4,0,5,0,2,0,4,4,3,3,2,3,3,3,1,4,3,4,1,5,3,4,3,4,0,4,2,4,3,4,1,5,4,0,4,4,4,4,5,4,1,3,5,4,2,1,4,1,1,3,2,0,3,1,0,3,2,1,4,3,3,3,4,0,4,0,3,0,4,4,4,3,3,3,0,4,2,0,3,4],
   [1,4,0,4,0,3,0,1,0,3,3,3,1,1,3,3,2,2,3,3,1,0,3,2,2,1,2,0,3,1,2,1,2,0,3,2,0,2,2,3,3,4,3,0,3,3,1,2,0,1,1,3,1,2,0,0,3,0,1,1,0,3,2,2,3,3,0,3,0,0,0,2,3,3,4,3,3,0,1,0,0,1,4],
   [0,4,0,4,0,4,0,0,0,3,4,4,3,1,4,2,3,2,3,3,3,1,4,3,4,0,3,0,4,2,3,3,2,2,5,4,2,1,3,4,3,4,3,1,3,3,4,2,0,2,1,0,3,3,0,0,2,0,3,1,0,4,4,3,4,3,0,4,0,1,0,2,4,4,4,4,4,0,3,2,0,3,3],
   [0,0,0,1,0,4,0,0,0,0,0,0,1,1,1,0,0,0,0,0,0,0,0,0,1,0,0,0,0,0,0,0,1,0,3,2,0,0,1,0,0,0,1,0,0,0,0,0,0,1,0,0,0,0,0,0,0,0,0,0,0,0,0,0,0,0,0,0,0,0,0,0,0,0,0,0,1,0,0,0,0,0,2],
   [0,2,0,3,0,4,0,4,0,1,3,3,3,0,4,0,2,1,2,1,1,1,2,0,3,1,1,0,1,0,3,1,0,0,3,3,2,0,1,1,0,0,0,0,0,1,0,2,0,2,2,0,3,1,0,0,1,0,1,1,0,1,2,0,3,0,0,0,0,1,0,0,3,3,4,3,1,0,1,0,3,0,2],
   [0,0,0,3,0,5,0,0,0,0,1,0,2,0,3,1,0,1,3,0,0,0,2,0,0,0,1,0,0,0,1,1,0,0,4,0,0,0,2,3,0,1,4,1,0,2,0,0,0,0,0,0,0,0,0,0,0,0,0,3,0,0,0,0,0,1,0,0,0,0,0,0,0,2,0,0,3,0,0,0,0,0,3],
   [0,2,0,5,0,5,0,1,0,2,4,3,3,2,5,1,3,2,3,3,3,0,4,1,2,0,3,0,4,0,2,2,1,1,5,3,0,0,1,4,2,3,2,0,3,3,3,2,0,2,4,1,1,2,0,1,1,0,3,1,0,1,3,1,2,3,0,2,0,0,0,1,3,5,4,4,4,0,3,0,0,1,3],
   [0,4,0,5,0,4,0,4,0,4,5,4,3,3,4,3,3,3,4,3,4,4,5,3,4,5,4,2,4,2,3,4,3,1,4,4,1,3,5,4,4,5,5,4,4,5,5,5,2,3,3,1,4,3,1,3,3,0,3,3,1,4,3,4,4,4,0,3,0,4,0,3,3,4,4,5,0,0,4,3,0,4,5],
   [0,4,0,4,0,3,0,3,0,3,4,4,4,3,3,2,4,3,4,3,4,3,5,3,4,3,2,1,4,2,4,4,3,1,3,4,2,4,5,5,3,4,5,4,1,5,4,3,0,3,2,2,3,2,1,3,1,0,3,3,3,5,3,3,3,5,4,4,2,3,3,4,3,3,3,2,1,0,3,2,1,4,3],
   [0,4,0,5,0,4,0,3,0,3,5,5,3,2,4,3,4,0,5,4,4,1,4,4,4,3,3,3,4,3,5,5,2,3,3,4,1,2,5,5,3,5,5,2,3,5,5,4,0,3,2,0,3,3,1,1,5,1,4,1,0,4,3,2,3,5,0,4,0,3,0,5,4,3,4,3,0,0,4,1,0,4,4],
   [1,3,0,4,0,2,0,2,0,2,5,5,3,3,3,3,3,0,4,2,3,4,4,4,3,4,0,0,3,4,5,4,3,3,3,3,2,5,5,4,5,5,5,4,3,5,5,5,1,3,1,0,1,0,0,3,2,0,4,2,0,5,2,3,2,4,1,3,0,3,0,4,5,4,5,4,3,0,4,2,0,5,4],
   [0,3,0,4,0,5,0,3,0,3,4,4,3,2,3,2,3,3,3,3,3,2,4,3,3,2,2,0,3,3,3,3,3,1,3,3,3,0,4,4,3,4,4,1,1,4,4,2,0,3,1,0,1,1,0,4,1,0,2,3,1,3,3,1,3,4,0,3,0,1,0,3,1,3,0,0,1,0,2,0,0,4,4],
   [0,0,0,0,0,0,0,0,0,0,0,0,0,0,0,0,0,0,0,0,0,0,0,0,0,0,0,0,0,0,0,0,0,0,0,0,0,0,0,0,0,0,0,0,0,0,0,0,0,0,0,0,0,0,0,0,0,0,0,0,0,0,0,0,0,0,0,0,0,0,0,0,0,0,0,0,0,0,0,0,0,0,0],
   [0,3,0,3,0,2,0,3,0,1,5,4,3,3,3,1,4,2,1,2,3,4,4,2,4,4,5,0,3,1,4,3,4,0,4,3,3,3,2,3,2,5,3,4,3,2,2,3,0,0,3,0,2,1,0,1,2,0,0,0,0,2,1,1,3,1,0,2,0,4,0,3,4,4,4,5,2,0,2,0,0,1,3],
   [0,0,0,0,0,0,0,0,0,0,0,0,0,0,1,0,0,0,0,0,1,1,1,0,0,1,1,0,0,0,4,2,1,1,0,1,0,3,2,0,0,3,1,1,1,2,2,0,0,0,0,0,0,0,0,0,0,0,0,0,0,3,0,1,0,0,0,2,0,0,0,1,4,0,4,2,1,0,0,0,0,0,1],
   [0,0,0,0,0,0,0,0,0,1,0,1,0,0,0,0,1,0,0,0,0,0,0,1,0,1,0,0,0,0,3,1,0,0,0,2,0,2,1,0,0,1,2,1,0,1,1,0,0,3,0,0,0,0,0,0,0,0,0,0,0,1,3,1,0,0,0,0,0,1,0,0,2,1,0,0,0,0,0,0,0,0,2],
   [0,4,0,4,0,4,0,3,0,4,4,3,4,2,4,3,2,0,4,4,4,3,5,3,5,3,3,2,4,2,4,3,4,3,1,4,0,2,3,4,4,4,3,3,3,4,4,4,3,4,1,3,4,3,2,1,2,1,3,3,3,4,4,3,3,5,0,4,0,3,0,4,3,3,3,2,1,0,3,0,0,3,3],
   [0,4,0,3,0,3,0,3,0,3,5,5,3,3,3,3,4,3,4,3,3,3,4,4,4,3,3,3,3,4,3,5,3,3,1,3,2,4,5,5,5,5,4,3,4,5,5,3,2,2,3,3,3,3,2,3,3,1,2,3,2,4,3,3,3,4,0,4,0,2,0,4,3,2,2,1,2,0,3,0,0,4,1]]"

text \<open>
  Modelled from the spec: \<^verbatim>\<open>NUM_OF_CATEGORY\<close> is defined in JpCntx.h, which is not part of
  the sources; the spec gives the histogram six entries (indices 0 to 5).
\<close>

definition NUM_OF_CATEGORY :: nat where
  "NUM_OF_CATEGORY = 6"

subsection \<open>The analysis state\<close>

text \<open>
  Modelled from the spec: the class declaration is in JpCntx.h, which is not part of the
  sources. The spec lists the six data members that JpCntx.cpp reads and writes; the
  counters, the threshold and the pending skip are taken as \<^verbatim>\<open>uint32_t\<close>, the type of the
  offsets that \<^verbatim>\<open>HandleData\<close> stores in \<^verbatim>\<open>mNeedToSkipCharNum\<close>, and the last order
  as the \<^verbatim>\<open>int32_t\<close> that \<^verbatim>\<open>GetOrder\<close> returns. \<^verbatim>\<open>mRelSample\<close> is an array of
  \<^verbatim>\<open>NUM_OF_CATEGORY\<close> counters, a list here; a state is well formed when the list has
  that length.
\<close>

record JapaneseContextAnalysis =
  mRelSample :: "u32 list"
  mTotalRel :: u32
  mDataThreshold :: u32
  mLastCharOrder :: int
  mNeedToSkipCharNum :: u32
  mDone :: bool

definition wf_state :: "JapaneseContextAnalysis \<Rightarrow> bool" where
  "wf_state s = (length (mRelSample s) = NUM_OF_CATEGORY)"

subsection \<open>The order decoders\<close>

definition deref :: "byte list \<Rightarrow> nat \<Rightarrow> error + byte" where
  "deref aBuf p = (if p < length aBuf then Inr (aBuf ! p) else Inl ReadPastEnd)"

text \<open>
  \<^verbatim>\<open>GetOrder(str, &charLen)\<close> with \<^verbatim>\<open>str = aBuf + p\<close>; the result is the pair of the
  returned order and \<^verbatim>\<open>*charLen\<close>. The second byte is read only when the first test of
  the conjunction holds (\<^verbatim>\<open>&&\<close> is short-circuit).
\<close>

definition SJIS_GetOrder :: "byte list \<Rightarrow> nat \<Rightarrow> error + (int \<times> nat)" where
  "SJIS_GetOrder aBuf p =
     (case deref aBuf p of
        Inl e \<Rightarrow> Inl e
      | Inr c \<Rightarrow>
          let charLen = (if (0x81 \<le> c \<and> c \<le> 0x9f) \<or> (0xe0 \<le> c \<and> c \<le> 0xfc) then 2 else 1)
          in if c = 0x82 then
               (case deref aBuf (p + 1) of
                  Inl e \<Rightarrow> Inl e
                | Inr d \<Rightarrow>
                    if 0x9f \<le> d \<and> d \<le> 0xf1 then Inr (uint d - 0x9f, charLen)
                    else Inr (- 1, charLen))
             else Inr (- 1, charLen))"

definition EUCJP_GetOrder :: "byte list \<Rightarrow> nat \<Rightarrow> error + (int \<times> nat)" where
  "EUCJP_GetOrder aBuf p =
     (case deref aBuf p of
        Inl e \<Rightarrow> Inl e
      | Inr c \<Rightarrow>
          let charLen = (if c = 0x8e \<or> (0xa1 \<le> c \<and> c \<le> 0xfe) then 2
                         else if c = 0x8f then 3 else 1)
          in if c = 0xa4 then
               (case deref aBuf (p + 1) of
                  Inl e \<Rightarrow> Inl e
                | Inr d \<Rightarrow>
                    if 0xa1 \<le> d \<and> d \<le> 0xf3 then Inr (uint d - 0xa1, charLen)
                    else Inr (- 1, charLen))
             else Inr (- 1, charLen))"

text \<open>The two subclasses that override the virtual \<^verbatim>\<open>GetOrder\<close>.\<close>

datatype encoding = SJIS | EUCJP

definition GetOrder :: "encoding \<Rightarrow> byte list \<Rightarrow> nat \<Rightarrow> error + (int \<times> nat)" where
  "GetOrder enc aBuf p =
     (case enc of SJIS \<Rightarrow> SJIS_GetOrder aBuf p | EUCJP \<Rightarrow> EUCJP_GetOrder aBuf p)"

subsection \<open>HandleData\<close>

text \<open>\<^verbatim>\<open>mRelSample[jp2CharContext[mLastCharOrder][order]]++\<close>, with every index checked.\<close>

definition count_relation :: "int \<Rightarrow> int \<Rightarrow> u32 list \<Rightarrow> error + u32 list" where
  "count_relation lastOrder order rs =
     (if 0 \<le> lastOrder \<and> lastOrder < 83 \<and> 0 \<le> order \<and> order < 83 then
        (let k = unat (jp2CharContext ! nat lastOrder ! nat order)
         in if k < length rs then Inr (rs[k := rs ! k + 1]) else Inl IndexOutOfRange)
      else Inl IndexOutOfRange)"

text \<open>
  The \<^verbatim>\<open>for (i = mNeedToSkipCharNum; i < aLen; )\<close> loop. \<^verbatim>\<open>MAX_REL_THRESHOLD\<close> is
  defined in JpCntx.h, which is not part of the sources, so it is the parameter
  \<open>maxRel\<close>.
\<close>

function HandleData_loop ::
  "encoding \<Rightarrow> u32 \<Rightarrow> byte list \<Rightarrow> nat \<Rightarrow> JapaneseContextAnalysis
     \<Rightarrow> error + JapaneseContextAnalysis" where
  "HandleData_loop enc maxRel aBuf i s =
     (if i < length aBuf then
        (case GetOrder enc aBuf i of
           Inl e \<Rightarrow> Inl e
         | Inr (order, charLen) \<Rightarrow>
             if 2 ^ 32 \<le> i + charLen then Inl OffsetOverflow
             else if length aBuf < i + charLen then
               HandleData_loop enc maxRel aBuf (i + charLen)
                 (s\<lparr>mNeedToSkipCharNum := of_nat (i + charLen - length aBuf),
                    mLastCharOrder := - 1\<rparr>)
             else if order \<noteq> - 1 \<and> mLastCharOrder s \<noteq> - 1 then
               (if maxRel < mTotalRel s + 1 then
                  Inr (s\<lparr>mTotalRel := mTotalRel s + 1, mDone := True\<rparr>)
                else
                  (case count_relation (mLastCharOrder s) order (mRelSample s) of
                     Inl e \<Rightarrow> Inl e
                   | Inr rs \<Rightarrow>
                       HandleData_loop enc maxRel aBuf (i + charLen)
                         (s\<lparr>mTotalRel := mTotalRel s + 1, mRelSample := rs,
                            mLastCharOrder := order\<rparr>)))
             else
               HandleData_loop enc maxRel aBuf (i + charLen) (s\<lparr>mLastCharOrder := order\<rparr>))
      else Inr s)"
  by pat_completeness auto
termination
  apply (relation "measure (\<lambda>(enc, maxRel, aBuf, i, s). length aBuf - i)")
     apply (auto simp: GetOrder_def SJIS_GetOrder_def EUCJP_GetOrder_def Let_def
      split: encoding.splits sum.splits if_splits)
  done

definition HandleData ::
  "encoding \<Rightarrow> u32 \<Rightarrow> JapaneseContextAnalysis \<Rightarrow> byte list \<Rightarrow> error + JapaneseContextAnalysis"
  where
  "HandleData enc maxRel s aBuf =
     (if mDone s then Inr s
      else HandleData_loop enc maxRel aBuf (unat (mNeedToSkipCharNum s)) s)"

subsection \<open>Reset and GetConfidence\<close>

definition Reset :: "JapaneseContextAnalysis \<Rightarrow> JapaneseContextAnalysis" where
  "Reset s =
     s\<lparr>mTotalRel := 0,
       mRelSample := fold (\<lambda>i rs. rs[i := 0]) [0 ..< NUM_OF_CATEGORY] (mRelSample s),
       mNeedToSkipCharNum := 0,
       mLastCharOrder := - 1,
       mDone := False,
       mDataThreshold := 0\<rparr>"

definition DONT_KNOW :: real where
  "DONT_KNOW = - 1"

definition GetConfidence :: "JapaneseContextAnalysis \<Rightarrow> real" where
  "GetConfidence s =
     (if mDataThreshold s < mTotalRel s then
        real (unat (mTotalRel s - mRelSample s ! 0)) / real (unat (mTotalRel s))
      else DONT_KNOW)"

text \<open>
  Modelled from the spec: \<^verbatim>\<open>isFinished()\<close> is not in JpCntx.cpp; the spec has it report
  whether the terminal state has been reached, which is the flag \<^verbatim>\<open>mDone\<close>.
\<close>

definition isFinished :: "JapaneseContextAnalysis \<Rightarrow> bool" where
  "isFinished s = mDone s"

text \<open>
  Modelled from the spec: the constructor is in JpCntx.h, which is not part of the
  sources; the spec creates the state empty, all fields zero and the last order \<open>-1\<close>,
  which is also what \<^verbatim>\<open>Reset\<close> leaves.
\<close>

definition initial_state :: JapaneseContextAnalysis where
  "initial_state =
     \<lparr>mRelSample = replicate NUM_OF_CATEGORY 0, mTotalRel = 0, mDataThreshold = 0,
      mLastCharOrder = - 1, mNeedToSkipCharNum = 0, mDone = False\<rparr>"

subsection \<open>Sequences of calls\<close>

text \<open>Successive \<^verbatim>\<open>HandleData\<close> calls on the chunks of a stream, in order.\<close>

fun ingest_all ::
  "encoding \<Rightarrow> u32 \<Rightarrow> JapaneseContextAnalysis \<Rightarrow> byte list list
     \<Rightarrow> error + JapaneseContextAnalysis" where
  "ingest_all enc maxRel s [] = Inr s"
| "ingest_all enc maxRel s (aBuf # chunks) =
     (case HandleData enc maxRel s aBuf of
        Inl e \<Rightarrow> Inl e
      | Inr s' \<Rightarrow> ingest_all enc maxRel s' chunks)"

text \<open>Any interleaving of \<^verbatim>\<open>HandleData\<close> and \<^verbatim>\<open>Reset\<close> calls on one analyser.\<close>

datatype call = Ingest "byte list" | ResetCall

fun run ::
  "encoding \<Rightarrow> u32 \<Rightarrow> JapaneseContextAnalysis \<Rightarrow> call list
     \<Rightarrow> error + JapaneseContextAnalysis" where
  "run enc maxRel s [] = Inr s"
| "run enc maxRel s (Ingest aBuf # calls) =
     (case HandleData enc maxRel s aBuf of
        Inl e \<Rightarrow> Inl e
      | Inr s' \<Rightarrow> run enc maxRel s' calls)"
| "run enc maxRel s (ResetCall # calls) = run enc maxRel (Reset s) calls"

subsection \<open>The calls as executed\<close>

text \<open>
  The definitions above stop where the C++ program leaves defined behaviour. The ones
  below follow what the compiled program does there, so that they cover every call that
  returns.
  \<^item> \<^verbatim>\<open>GetOrder\<close> reads \<^verbatim>\<open>str[1]\<close> whatever the chunk length is. At the last offset of
    a chunk this is the byte that memory holds right after the chunk, the parameter
    \<open>past\<close>; no other offset outside the chunk is ever read.
  \<^item> \<^verbatim>\<open>i += charLen\<close> wraps modulo \<open>2^32\<close>. Then the loop need not end, so the loop is a
    partial function and a call that never returns has the value \<open>None\<close>.
  \<^item> The table and the counter array are still indexed with a check; from the initial
    state the check never fails (\<open>state_inv_run_exec\<close>).
  \<^item> \<^verbatim>\<open>aLen\<close> is the length of the list; a caller can pass only lengths below \<open>2^32\<close>.
\<close>

definition peek :: "byte list \<Rightarrow> byte \<Rightarrow> nat \<Rightarrow> byte" where
  "peek aBuf past p = (if p < length aBuf then aBuf ! p else past)"

definition SJIS_GetOrder_exec :: "byte list \<Rightarrow> byte \<Rightarrow> nat \<Rightarrow> int \<times> nat" where
  "SJIS_GetOrder_exec aBuf past p =
     (let c = peek aBuf past p;
          charLen = (if (0x81 \<le> c \<and> c \<le> 0x9f) \<or> (0xe0 \<le> c \<and> c \<le> 0xfc) then 2 else 1)
      in if c = 0x82 \<and> 0x9f \<le> peek aBuf past (p + 1) \<and> peek aBuf past (p + 1) \<le> 0xf1
         then (uint (peek aBuf past (p + 1)) - 0x9f, charLen)
         else (- 1, charLen))"

definition EUCJP_GetOrder_exec :: "byte list \<Rightarrow> byte \<Rightarrow> nat \<Rightarrow> int \<times> nat" where
  "EUCJP_GetOrder_exec aBuf past p =
     (let c = peek aBuf past p;
          charLen = (if c = 0x8e \<or> (0xa1 \<le> c \<and> c \<le> 0xfe) then 2
                     else if c = 0x8f then 3 else 1)
      in if c = 0xa4 \<and> 0xa1 \<le> peek aBuf past (p + 1) \<and> peek aBuf past (p + 1) \<le> 0xf3
         then (uint (peek aBuf past (p + 1)) - 0xa1, charLen)
         else (- 1, charLen))"

definition GetOrder_exec :: "encoding \<Rightarrow> byte list \<Rightarrow> byte \<Rightarrow> nat \<Rightarrow> int \<times> nat" where
  "GetOrder_exec enc aBuf past p =
     (case enc of SJIS \<Rightarrow> SJIS_GetOrder_exec aBuf past p
      | EUCJP \<Rightarrow> EUCJP_GetOrder_exec aBuf past p)"

partial_function (option) HandleData_exec_loop ::
  "encoding \<Rightarrow> u32 \<Rightarrow> byte list \<Rightarrow> byte \<Rightarrow> nat \<Rightarrow> JapaneseContextAnalysis
     \<Rightarrow> (error + JapaneseContextAnalysis) option" where
  "HandleData_exec_loop enc maxRel aBuf past i s =
     (if i < length aBuf then
        (case GetOrder_exec enc aBuf past i of
           (order, charLen) \<Rightarrow>
             let i' = (i + charLen) mod 2 ^ 32 in
             if length aBuf < i' then
               HandleData_exec_loop enc maxRel aBuf past i'
                 (s\<lparr>mNeedToSkipCharNum := of_nat (i' - length aBuf),
                    mLastCharOrder := - 1\<rparr>)
             else if order \<noteq> - 1 \<and> mLastCharOrder s \<noteq> - 1 then
               (if maxRel < mTotalRel s + 1 then
                  Some (Inr (s\<lparr>mTotalRel := mTotalRel s + 1, mDone := True\<rparr>))
                else
                  (case count_relation (mLastCharOrder s) order (mRelSample s) of
                     Inl e \<Rightarrow> Some (Inl e)
                   | Inr rs \<Rightarrow>
                       HandleData_exec_loop enc maxRel aBuf past i'
                         (s\<lparr>mTotalRel := mTotalRel s + 1, mRelSample := rs,
                            mLastCharOrder := order\<rparr>)))
             else
               HandleData_exec_loop enc maxRel aBuf past i' (s\<lparr>mLastCharOrder := order\<rparr>))
      else Some (Inr s))"

definition HandleData_exec ::
  "encoding \<Rightarrow> u32 \<Rightarrow> JapaneseContextAnalysis \<Rightarrow> byte list \<Rightarrow> byte
     \<Rightarrow> (error + JapaneseContextAnalysis) option" where
  "HandleData_exec enc maxRel s aBuf past =
     (if mDone s then Some (Inr s)
      else HandleData_exec_loop enc maxRel aBuf past (unat (mNeedToSkipCharNum s)) s)"

text \<open>
  Any interleaving of calls as executed; each \<^verbatim>\<open>HandleData\<close> call comes with its chunk
  and the byte that follows the chunk in memory.
\<close>

datatype exec_call = Exec_Ingest "byte list" byte | Exec_Reset

fun run_exec ::
  "encoding \<Rightarrow> u32 \<Rightarrow> JapaneseContextAnalysis \<Rightarrow> exec_call list
     \<Rightarrow> (error + JapaneseContextAnalysis) option" where
  "run_exec enc maxRel s [] = Some (Inr s)"
| "run_exec enc maxRel s (Exec_Ingest aBuf past # calls) =
     (case HandleData_exec enc maxRel s aBuf past of
        None \<Rightarrow> None
      | Some (Inl e) \<Rightarrow> Some (Inl e)
      | Some (Inr s') \<Rightarrow> run_exec enc maxRel s' calls)"
| "run_exec enc maxRel s (Exec_Reset # calls) = run_exec enc maxRel (Reset s) calls"

subsection \<open>The invariant of the reachable states\<close>

text \<open>
  The counter array has its six entries, the last order is \<open>-1\<close> or a table index, the
  threshold is the \<open>0\<close> that \<^verbatim>\<open>Reset\<close> stores, and the total is the sum of the counters,
  plus the one relation that crossed the bound once \<^verbatim>\<open>mDone\<close> is set.
\<close>

definition state_inv :: "u32 \<Rightarrow> JapaneseContextAnalysis \<Rightarrow> bool" where
  "state_inv maxRel s =
     (length (mRelSample s) = NUM_OF_CATEGORY \<and> - 1 \<le> mLastCharOrder s \<and> mLastCharOrder s \<le> 82 \<and>
      mDataThreshold s = 0 \<and>
      unat (mTotalRel s) = sum_list (map unat (mRelSample s)) + (if mDone s then 1 else 0) \<and>
      (mDone s \<or> mTotalRel s \<le> maxRel))"


section \<open>Properties\<close>

subsection \<open>Auxiliary facts\<close>

declare HandleData_loop.simps [simp del]

lemma jp2_shape: "length jp2CharContext = 83 \<and> list_all (\<lambda>r. length r = 83 \<and> list_all (\<lambda>x. unat x < 6) r) jp2CharContext"
  unfolding jp2CharContext_def by simp

lemma jp2_range: "a < 83 \<Longrightarrow> b < 83 \<Longrightarrow> unat (jp2CharContext ! a ! b) < 6"
  using jp2_shape by (simp add: list_all_length)

lemma GetOrder_range:
  "GetOrder enc aBuf i = Inr (order, charLen) \<Longrightarrow>
     (order = - 1 \<or> (0 \<le> order \<and> order \<le> 82)) \<and> (charLen = 1 \<or> charLen = 2 \<or> charLen = 3)"
  by (auto simp: GetOrder_def SJIS_GetOrder_def EUCJP_GetOrder_def Let_def word_le_def
      split: encoding.splits sum.splits if_splits)

lemma HandleData_loop_rule:
  assumes sp: "\<And>s n. P s \<Longrightarrow> 0 < n \<Longrightarrow> n < 3 \<Longrightarrow>
           P (s\<lparr>mNeedToSkipCharNum := of_nat n, mLastCharOrder := - 1\<rparr>)"
    and fin: "\<And>s. P s \<Longrightarrow> mLastCharOrder s \<noteq> - 1 \<Longrightarrow> maxRel < mTotalRel s + 1 \<Longrightarrow>
           Q (s\<lparr>mTotalRel := mTotalRel s + 1, mDone := True\<rparr>)"
    and ex: "\<And>s. P s \<Longrightarrow> Q s"
    and rel: "\<And>s order rs. P s \<Longrightarrow> 0 \<le> order \<Longrightarrow> order \<le> 82 \<Longrightarrow> mLastCharOrder s \<noteq> - 1 \<Longrightarrow>
           \<not> maxRel < mTotalRel s + 1 \<Longrightarrow>
           count_relation (mLastCharOrder s) order (mRelSample s) = Inr rs \<Longrightarrow>
           P (s\<lparr>mTotalRel := mTotalRel s + 1, mRelSample := rs, mLastCharOrder := order\<rparr>)"
    and oth: "\<And>s order. P s \<Longrightarrow> order = - 1 \<or> (0 \<le> order \<and> order \<le> 82) \<Longrightarrow>
           P (s\<lparr>mLastCharOrder := order\<rparr>)"
  shows "HandleData_loop enc maxRel aBuf i s = Inr t \<Longrightarrow> P s \<Longrightarrow> Q t"
proof (induction "length aBuf - i" arbitrary: i s rule: less_induct)
  case less
  note res = less.prems(1) and Ps = less.prems(2)
  show ?case
  proof (cases "i < length aBuf")
    case False
    with res ex [OF Ps] show ?thesis
      by (simp add: HandleData_loop.simps)
  next
    case True
    from res True obtain order charLen where
      g: "GetOrder enc aBuf i = Inr (order, charLen)"
      by (subst (asm) HandleData_loop.simps) (auto split: sum.splits)
    note r = GetOrder_range [OF g]
    from r True have dec: "length aBuf - (i + charLen) < length aBuf - i"
      by auto
    from res True g have ov: "\<not> 2 ^ 32 \<le> i + charLen"
      by (subst (asm) HandleData_loop.simps) (auto split: if_splits)
    show ?thesis
    proof (cases "length aBuf < i + charLen")
      case split: True
      let ?s = "s\<lparr>mNeedToSkipCharNum := of_nat (i + charLen - length aBuf), mLastCharOrder := - 1\<rparr>"
      have r1: "HandleData_loop enc maxRel aBuf (i + charLen) ?s = Inr t"
        using res True g ov split
        by (subst (asm) HandleData_loop.simps) simp
      have "P ?s"
        using True split r by (intro sp Ps) auto
      with dec r1 show ?thesis by (rule less.hyps)
    next
      case nosplit: False
      show ?thesis
      proof (cases "order \<noteq> - 1 \<and> mLastCharOrder s \<noteq> - 1")
        case pair: True
        show ?thesis
        proof (cases "maxRel < mTotalRel s + 1")
          case True
          with res \<open>i < length aBuf\<close> g ov nosplit pair
          have "t = s\<lparr>mTotalRel := mTotalRel s + 1, mDone := True\<rparr>"
            by (subst (asm) HandleData_loop.simps) simp
          with fin [OF Ps _ True] pair show ?thesis by simp
        next
          case False
          from res \<open>i < length aBuf\<close> g ov nosplit pair False obtain rs where
            c: "count_relation (mLastCharOrder s) order (mRelSample s) = Inr rs"
            by (subst (asm) HandleData_loop.simps) (auto split: sum.splits)
          let ?s = "s\<lparr>mTotalRel := mTotalRel s + 1, mRelSample := rs, mLastCharOrder := order\<rparr>"
          have r1: "HandleData_loop enc maxRel aBuf (i + charLen) ?s = Inr t"
            using res \<open>i < length aBuf\<close> g ov nosplit pair False c
            by (subst (asm) HandleData_loop.simps) simp
          have "P ?s"
            using pair r False c by (intro rel Ps) auto
          with dec r1 show ?thesis by (rule less.hyps)
        qed
      next
        case nopair: False
        let ?s = "s\<lparr>mLastCharOrder := order\<rparr>"
        have r1: "HandleData_loop enc maxRel aBuf (i + charLen) ?s = Inr t"
          using res True g ov nosplit nopair
          by (subst (asm) HandleData_loop.simps) auto
        have "P ?s"
          using r by (intro oth Ps) auto
        with dec r1 show ?thesis by (rule less.hyps)
      qed
    qed
  qed
qed



lemma unat_succ: "unat (x :: u32) < 2 ^ 32 - 1 \<Longrightarrow> unat (x + 1) = unat x + 1"
  by (simp add: unat_word_ariths)

lemma sum_unat_bump:
  assumes "k < length rs" and "sum_list (map unat rs) < 2 ^ 32 - 1"
  shows "sum_list (map unat (rs[k := rs ! k + 1])) = sum_list (map unat (rs :: u32 list)) + 1"
proof -
  have le: "unat (rs ! k) \<le> sum_list (map unat rs)"
    using assms(1) elem_le_sum_list [of k "map unat rs"] by simp
  then have "unat (rs ! k + 1) = unat (rs ! k) + 1"
    using assms(2) by (intro unat_succ) simp
  moreover have "sum_list ((map unat rs)[k := unat (rs ! k) + 1]) = sum_list (map unat rs) + (unat (rs ! k) + 1) - map unat rs ! k"
    using assms(1) by (intro sum_list_update) simp
  ultimately show ?thesis
    using assms(1) le by (simp add: map_update)
qed

lemma count_relation_Inr:
  "count_relation a b rs = Inr rs' \<Longrightarrow> \<exists>k < length rs. rs' = rs[k := rs ! k + 1]"
  by (auto simp: count_relation_def Let_def split: if_splits)

lemma state_inv_loop:
  assumes M: "unat maxRel < 2 ^ 32 - 1"
    and res: "HandleData_loop enc maxRel aBuf i s = Inr t"
    and inv: "state_inv maxRel s" and nd: "\<not> mDone s"
  shows "state_inv maxRel t"
proof (rule HandleData_loop_rule [where P = "\<lambda>s. state_inv maxRel s \<and> \<not> mDone s" and Q = "state_inv maxRel", OF _ _ _ _ _ res])
  show "state_inv maxRel s \<and> \<not> mDone s" using inv nd by simp
next
  fix s n assume "state_inv maxRel s \<and> \<not> mDone s"
  then show "state_inv maxRel (s\<lparr>mNeedToSkipCharNum := of_nat n, mLastCharOrder := - 1\<rparr>) \<and>
     \<not> mDone (s\<lparr>mNeedToSkipCharNum := of_nat n, mLastCharOrder := - 1\<rparr>)"
    by (auto simp: state_inv_def)
next
  fix s assume a: "state_inv maxRel s \<and> \<not> mDone s"
  then have "unat (mTotalRel s) \<le> unat maxRel"
    by (auto simp: state_inv_def word_le_nat_alt)
  with M have "unat (mTotalRel s + 1) = unat (mTotalRel s) + 1"
    by (intro unat_succ) simp
  with a show "state_inv maxRel (s\<lparr>mTotalRel := mTotalRel s + 1, mDone := True\<rparr>)"
    by (auto simp: state_inv_def)
next
  fix s assume "state_inv maxRel s \<and> \<not> mDone s"
  then show "state_inv maxRel s" by simp
next
  fix s order rs
  assume a: "state_inv maxRel s \<and> \<not> mDone s" and o: "0 \<le> order" "order \<le> 82"
    and nl: "\<not> maxRel < mTotalRel s + 1"
    and c: "count_relation (mLastCharOrder s) order (mRelSample s) = Inr rs"
  from a have le: "unat (mTotalRel s) \<le> unat maxRel"
    by (auto simp: state_inv_def word_le_nat_alt)
  with M have t1: "unat (mTotalRel s + 1) = unat (mTotalRel s) + 1"
    by (intro unat_succ) simp
  from a have sum: "unat (mTotalRel s) = sum_list (map unat (mRelSample s))"
    by (auto simp: state_inv_def)
  from count_relation_Inr [OF c] obtain k where
    k: "k < length (mRelSample s)" "rs = (mRelSample s)[k := mRelSample s ! k + 1]"
    by blast
  have "sum_list (map unat rs) = sum_list (map unat (mRelSample s)) + 1"
    unfolding k(2) using k(1) le M sum by (intro sum_unat_bump) simp_all
  with a o nl t1 k
  show "state_inv maxRel (s\<lparr>mTotalRel := mTotalRel s + 1, mRelSample := rs, mLastCharOrder := order\<rparr>) \<and>
     \<not> mDone (s\<lparr>mTotalRel := mTotalRel s + 1, mRelSample := rs, mLastCharOrder := order\<rparr>)"
    by (auto simp: state_inv_def not_less)
next
  fix s and order :: int
  assume "state_inv maxRel s \<and> \<not> mDone s" "order = - 1 \<or> 0 \<le> order \<and> order \<le> 82"
  then show "state_inv maxRel (s\<lparr>mLastCharOrder := order\<rparr>) \<and> \<not> mDone (s\<lparr>mLastCharOrder := order\<rparr>)"
    by (auto simp: state_inv_def)
qed

lemma state_inv_HandleData:
  "unat maxRel < 2 ^ 32 - 1 \<Longrightarrow> HandleData enc maxRel s aBuf = Inr t \<Longrightarrow> state_inv maxRel s \<Longrightarrow>
     state_inv maxRel t"
  by (auto simp: HandleData_def split: if_splits intro: state_inv_loop)

lemma Reset_initial:
  "length (mRelSample s) = NUM_OF_CATEGORY \<Longrightarrow> Reset s = initial_state"
  by (cases s) (auto simp: Reset_def initial_state_def NUM_OF_CATEGORY_def upt_rec list_eq_iff_nth_eq nth_list_update less_Suc_eq numeral_eq_Suc)

lemma state_inv_initial: "state_inv maxRel initial_state"
  by (simp add: state_inv_def initial_state_def NUM_OF_CATEGORY_def)

lemma state_inv_Reset: "state_inv maxRel s \<Longrightarrow> state_inv maxRel (Reset s)"
  using Reset_initial [of s] state_inv_initial [of maxRel]
  by (simp add: state_inv_def initial_state_def)

lemma state_inv_run:
  "unat maxRel < 2 ^ 32 - 1 \<Longrightarrow> run enc maxRel s calls = Inr t \<Longrightarrow> state_inv maxRel s \<Longrightarrow>
     state_inv maxRel t"
proof (induction calls arbitrary: s)
  case Nil
  then show ?case by simp
next
  case (Cons c calls)
  show ?case
  proof (cases c)
    case (Ingest aBuf)
    with Cons.prems obtain s1 where
      h: "HandleData enc maxRel s aBuf = Inr s1" "run enc maxRel s1 calls = Inr t"
      by (auto split: sum.splits)
    from state_inv_HandleData [OF Cons.prems(1) h(1) Cons.prems(3)]
    show ?thesis by (rule Cons.IH [OF Cons.prems(1) h(2)])
  next
    case ResetCall
    with Cons.prems have "run enc maxRel (Reset s) calls = Inr t" by simp
    from Cons.IH [OF Cons.prems(1) this state_inv_Reset [OF Cons.prems(3)]]
    show ?thesis .
  qed
qed

subsection \<open>Evaluating concrete runs\<close>

lemma initial_state_list:
  "initial_state =
     \<lparr>mRelSample = [0, 0, 0, 0, 0, 0], mTotalRel = 0, mDataThreshold = 0,
      mLastCharOrder = - 1, mNeedToSkipCharNum = 0, mDone = False\<rparr>"
  by (simp add: initial_state_def NUM_OF_CATEGORY_def numeral_eq_Suc)

lemma count_relation_1_3:
  "count_relation 1 3 rs = (if 4 < length rs then Inr (rs[4 := rs ! 4 + 1]) else Inl IndexOutOfRange)"
  by (simp add: count_relation_def jp2CharContext_def Let_def)

lemma count_relation_1_1:
  "count_relation 1 1 rs = (if 4 < length rs then Inr (rs[4 := rs ! 4 + 1]) else Inl IndexOutOfRange)"
  by (simp add: count_relation_def jp2CharContext_def Let_def)

lemmas run_simps = HandleData_def HandleData_loop.simps GetOrder_def SJIS_GetOrder_def
  EUCJP_GetOrder_def deref_def Let_def initial_state_list count_relation_1_3 count_relation_1_1

lemma HandleData_loop_end:
  "length aBuf \<le> i \<Longrightarrow> HandleData_loop enc maxRel aBuf i s = Inr s"
  by (simp add: HandleData_loop.simps)

subsection \<open>A chunk of repeated hiragana\<close>

lemma length_pairs: "length (concat (replicate n [a, b])) = 2 * n"
  by (induction n) auto

lemma nth_pairs:
  "j < n \<Longrightarrow> concat (replicate n [a, b]) ! (2 * j) = a \<and> concat (replicate n [a, b]) ! Suc (2 * j) = b"
proof (induction n arbitrary: j)
  case 0
  then show ?case by simp
next
  case (Suc n)
  then show ?case by (cases j) auto
qed

lemma GetOrder_hiragana_pairs:
  "j < n \<Longrightarrow> GetOrder SJIS (concat (replicate n [0x82, 0xA0])) (2 * j) = Inr (1, 2)"
  using nth_pairs [of j n "0x82 :: byte" "0xA0"]
  by (simp add: GetOrder_def SJIS_GetOrder_def deref_def length_pairs)

lemma hiragana_pairs_count:
  assumes n: "2 * n < 2 ^ 32"
  shows "k + d \<le> n \<Longrightarrow> c + d \<le> unat maxRel \<Longrightarrow>
    HandleData_loop SJIS maxRel (concat (replicate n [0x82, 0xA0])) (2 * k)
      \<lparr>mRelSample = [0, 0, 0, 0, of_nat c, 0], mTotalRel = of_nat c, mDataThreshold = 0,
       mLastCharOrder = 1, mNeedToSkipCharNum = 0, mDone = False\<rparr>
    = HandleData_loop SJIS maxRel (concat (replicate n [0x82, 0xA0])) (2 * (k + d))
      \<lparr>mRelSample = [0, 0, 0, 0, of_nat (c + d), 0], mTotalRel = of_nat (c + d),
       mDataThreshold = 0, mLastCharOrder = 1, mNeedToSkipCharNum = 0, mDone = False\<rparr>"
proof (induction d arbitrary: k c)
  case 0
  then show ?case by simp
next
  case (Suc d)
  from Suc.prems have k: "k < n" by simp
  have "Suc c \<le> unat maxRel" using Suc.prems by simp
  moreover have "unat (of_nat (Suc c) :: u32) \<le> Suc c"
    unfolding unat_of_nat by (rule mod_less_eq_dividend)
  ultimately have "(of_nat (Suc c) :: u32) \<le> maxRel"
    unfolding word_le_nat_alt by (rule order_trans [rotated])
  then have nl: "\<not> maxRel < of_nat c + 1"
    by (simp add: not_less add.commute)
  have "HandleData_loop SJIS maxRel (concat (replicate n [0x82, 0xA0])) (2 * Suc k)
      \<lparr>mRelSample = [0, 0, 0, 0, of_nat (Suc c), 0], mTotalRel = of_nat (Suc c), mDataThreshold = 0,
       mLastCharOrder = 1, mNeedToSkipCharNum = 0, mDone = False\<rparr>
    = HandleData_loop SJIS maxRel (concat (replicate n [0x82, 0xA0])) (2 * (Suc k + d))
      \<lparr>mRelSample = [0, 0, 0, 0, of_nat (Suc c + d), 0], mTotalRel = of_nat (Suc c + d),
       mDataThreshold = 0, mLastCharOrder = 1, mNeedToSkipCharNum = 0, mDone = False\<rparr>"
    using Suc.prems by (intro Suc.IH) auto
  then show ?case
    using k n nl GetOrder_hiragana_pairs [OF k]
    by (subst HandleData_loop.simps) (simp add: length_pairs count_relation_1_1 ac_simps)
qed

lemma hiragana_pairs_done:
  assumes n: "2 * n < 2 ^ 32" and k: "Suc k = n"
  shows "HandleData_loop SJIS maxRel (concat (replicate n [0x82, 0xA0])) (2 * k)
      \<lparr>mRelSample = [0, 0, 0, 0, maxRel, 0], mTotalRel = maxRel, mDataThreshold = 0,
       mLastCharOrder = 1, mNeedToSkipCharNum = 0, mDone = False\<rparr>
    = (if maxRel < maxRel + 1 then
        Inr \<lparr>mRelSample = [0, 0, 0, 0, maxRel, 0], mTotalRel = maxRel + 1, mDataThreshold = 0,
          mLastCharOrder = 1, mNeedToSkipCharNum = 0, mDone = True\<rparr>
       else Inr \<lparr>mRelSample = [0, 0, 0, 0, maxRel + 1, 0], mTotalRel = maxRel + 1, mDataThreshold = 0,
          mLastCharOrder = 1, mNeedToSkipCharNum = 0, mDone = False\<rparr>)"
proof -
  from k have kn: "k < n" by simp
  show ?thesis
    using n k GetOrder_hiragana_pairs [OF kn]
    by (subst HandleData_loop.simps)
      (auto simp: length_pairs count_relation_1_1 HandleData_loop_end)
qed

lemma hiragana_pairs_first:
  assumes "0 < n"
  shows "HandleData SJIS maxRel initial_state (concat (replicate n [0x82, 0xA0])) =
    HandleData_loop SJIS maxRel (concat (replicate n [0x82, 0xA0])) (2 * 1)
      \<lparr>mRelSample = [0, 0, 0, 0, of_nat 0, 0], mTotalRel = of_nat 0, mDataThreshold = 0,
       mLastCharOrder = 1, mNeedToSkipCharNum = 0, mDone = False\<rparr>"
  using assms GetOrder_hiragana_pairs [of 0 n]
  by (simp add: HandleData_def initial_state_list)
    (subst HandleData_loop.simps, simp add: length_pairs, simp only: numeral_2_eq_2)

lemma done_state_1000:
  "HandleData SJIS 1000 initial_state (concat (replicate 1002 [0x82, 0xA0])) =
     Inr \<lparr>mRelSample = [0, 0, 0, 0, 1000, 0], mTotalRel = 1001, mDataThreshold = 0,
           mLastCharOrder = 1, mNeedToSkipCharNum = 0, mDone = True\<rparr>"
proof -
  have "HandleData SJIS 1000 initial_state (concat (replicate 1002 [0x82, 0xA0])) =
    HandleData_loop SJIS 1000 (concat (replicate 1002 [0x82, 0xA0])) (2 * 1)
      \<lparr>mRelSample = [0, 0, 0, 0, of_nat 0, 0], mTotalRel = of_nat 0, mDataThreshold = 0,
       mLastCharOrder = 1, mNeedToSkipCharNum = 0, mDone = False\<rparr>"
    by (rule hiragana_pairs_first) simp
  also have "\<dots> = HandleData_loop SJIS 1000 (concat (replicate 1002 [0x82, 0xA0])) (2 * (1 + 1000))
      \<lparr>mRelSample = [0, 0, 0, 0, of_nat (0 + 1000), 0], mTotalRel = of_nat (0 + 1000), mDataThreshold = 0,
       mLastCharOrder = 1, mNeedToSkipCharNum = 0, mDone = False\<rparr>"
    by (rule hiragana_pairs_count) simp_all
  also have "\<dots> = Inr \<lparr>mRelSample = [0, 0, 0, 0, 1000, 0], mTotalRel = 1001, mDataThreshold = 0,
           mLastCharOrder = 1, mNeedToSkipCharNum = 0, mDone = True\<rparr>"
    using hiragana_pairs_done [of 1002 1001 1000] by simp
  finally show ?thesis .
qed


subsection \<open>C8 and C9: the order decoders\<close>

text \<open>
  C8. On every two-byte buffer the Shift-JIS decoder reports length 2 when the first byte,
  read unsigned, is in 0x81..0x9F or 0xE0..0xFC and length 1 otherwise; the order is the
  second byte minus 0x9F when the first byte is 0x82 and the second is in 0x9F..0xF1, and
  \<open>-1\<close> in every other case, so it is \<open>-1\<close> or in 0..82.
\<close>

theorem SJIS_GetOrder_two_bytes:
  "(case SJIS_GetOrder [b0, b1] 0 of
      Inl e \<Rightarrow> False
    | Inr (order, charLen) \<Rightarrow>
        charLen = (if (0x81 \<le> uint b0 \<and> uint b0 \<le> 0x9F) \<or> (0xE0 \<le> uint b0 \<and> uint b0 \<le> 0xFC)
                   then 2 else 1) \<and>
        order = (if uint b0 = 0x82 \<and> 0x9F \<le> uint b1 \<and> uint b1 \<le> 0xF1
                 then uint b1 - 0x9F else - 1) \<and>
        (order = - 1 \<or> (0 \<le> order \<and> order \<le> 82)))"
  by (auto simp: SJIS_GetOrder_def deref_def Let_def word_le_def word_uint_eq_iff
      split: sum.splits)

text \<open>
  C9. On every two-byte buffer the EUC-JP decoder reports length 2 when the first byte,
  read unsigned, is 0x8E or in 0xA1..0xFE, length 3 when it is 0x8F and length 1 otherwise;
  the order is the second byte minus 0xA1 when the first byte is 0xA4 and the second is in
  0xA1..0xF3, and \<open>-1\<close> in every other case, so it is \<open>-1\<close> or in 0..82.
\<close>

theorem EUCJP_GetOrder_two_bytes:
  "(case EUCJP_GetOrder [b0, b1] 0 of
      Inl e \<Rightarrow> False
    | Inr (order, charLen) \<Rightarrow>
        charLen = (if uint b0 = 0x8E \<or> (0xA1 \<le> uint b0 \<and> uint b0 \<le> 0xFE) then 2
                   else if uint b0 = 0x8F then 3 else 1) \<and>
        order = (if uint b0 = 0xA4 \<and> 0xA1 \<le> uint b1 \<and> uint b1 \<le> 0xF3
                 then uint b1 - 0xA1 else - 1) \<and>
        (order = - 1 \<or> (0 \<le> order \<and> order \<le> 82)))"
  by (auto simp: EUCJP_GetOrder_def deref_def Let_def word_le_def word_uint_eq_iff
      split: sum.splits)

subsection \<open>C6: Reset\<close>

text \<open>
  C6 as stated fails: \<^verbatim>\<open>Reset\<close> does not keep the data threshold, it stores 0. A state
  whose threshold is 4 has threshold 0 after \<^verbatim>\<open>Reset\<close>.
\<close>

theorem Reset_changes_data_threshold:
  "mDataThreshold (Reset (initial_state\<lparr>mDataThreshold := 4\<rparr>)) \<noteq>
   mDataThreshold (initial_state\<lparr>mDataThreshold := 4\<rparr>)"
  by (simp add: Reset_def)

text \<open>
  C6 (as amended). On every state whose counter array has its six entries, \<^verbatim>\<open>Reset\<close>
  sets the total to 0, all six counters to 0, the pending skip to 0, the last order to
  \<open>-1\<close>, the finished flag to false, and the data threshold to 0.
\<close>

theorem Reset_restores_initial_state:
  assumes "wf_state s"
  shows "Reset s =
    \<lparr>mRelSample = [0, 0, 0, 0, 0, 0], mTotalRel = 0, mDataThreshold = 0,
     mLastCharOrder = - 1, mNeedToSkipCharNum = 0, mDone = False\<rparr>"
  using assms Reset_initial [of s] by (simp add: wf_state_def initial_state_list)

theorem Reset_restores_initial_state_witness:
  "wf_state \<lparr>mRelSample = [0, 3, 0, 0, 7, 0], mTotalRel = 10, mDataThreshold = 4,
     mLastCharOrder = 5, mNeedToSkipCharNum = 1, mDone = True\<rparr> \<and>
   Reset \<lparr>mRelSample = [0, 3, 0, 0, 7, 0], mTotalRel = 10, mDataThreshold = 4,
     mLastCharOrder = 5, mNeedToSkipCharNum = 1, mDone = True\<rparr> =
    \<lparr>mRelSample = [0, 0, 0, 0, 0, 0], mTotalRel = 0, mDataThreshold = 0,
     mLastCharOrder = - 1, mNeedToSkipCharNum = 0, mDone = False\<rparr>"
proof -
  have h: "wf_state \<lparr>mRelSample = [0, 3, 0, 0, 7, 0], mTotalRel = 10, mDataThreshold = 4,
     mLastCharOrder = 5, mNeedToSkipCharNum = 1, mDone = True\<rparr>"
    by (simp add: wf_state_def NUM_OF_CATEGORY_def)
  from Reset_restores_initial_state [OF h] h show ?thesis by simp
qed

subsection \<open>C7: the finished state is terminal\<close>

lemma HandleData_done: "mDone s \<Longrightarrow> HandleData enc maxRel s aBuf = Inr s"
  by (simp add: HandleData_def)

lemma ingest_all_done: "mDone s \<Longrightarrow> ingest_all enc maxRel s chunks = Inr s"
  by (induction chunks) (simp_all add: HandleData_done)

text \<open>
  C7. In a state whose \<^verbatim>\<open>mDone\<close> flag is set, any sequence of further
  \<^verbatim>\<open>HandleData\<close> calls, on arbitrary chunks, returns the state unchanged after each
  call; so the confidence is the same before and after, and the analyser keeps reporting
  finished, until \<^verbatim>\<open>Reset\<close> clears the flag.
\<close>

theorem finished_state_is_terminal:
  assumes "mDone s"
  shows "ingest_all enc maxRel s chunks = Inr s \<and>
    (case ingest_all enc maxRel s chunks of
       Inl e \<Rightarrow> False
     | Inr t \<Rightarrow> GetConfidence t = GetConfidence s \<and> isFinished t) \<and>
    \<not> isFinished (Reset s)"
  using assms by (simp add: ingest_all_done isFinished_def Reset_def)

theorem finished_state_is_terminal_witness:
  "mDone \<lparr>mRelSample = [0, 0, 0, 0, 1000, 0], mTotalRel = 1001, mDataThreshold = 0,
      mLastCharOrder = 1, mNeedToSkipCharNum = 0, mDone = True\<rparr> \<and>
   ingest_all SJIS 1000
     \<lparr>mRelSample = [0, 0, 0, 0, 1000, 0], mTotalRel = 1001, mDataThreshold = 0,
      mLastCharOrder = 1, mNeedToSkipCharNum = 0, mDone = True\<rparr>
     [[0x82, 0xA0, 0x82, 0xA2], [0x41]] =
   Inr \<lparr>mRelSample = [0, 0, 0, 0, 1000, 0], mTotalRel = 1001, mDataThreshold = 0,
      mLastCharOrder = 1, mNeedToSkipCharNum = 0, mDone = True\<rparr>"
proof -
  have h: "mDone \<lparr>mRelSample = [0, 0, 0, 0, 1000, 0], mTotalRel = 1001, mDataThreshold = 0,
      mLastCharOrder = 1, mNeedToSkipCharNum = 0, mDone = True\<rparr>"
    by simp
  from finished_state_is_terminal [OF h, of SJIS 1000 "[[0x82, 0xA0, 0x82, 0xA2], [0x41]]"] h
  show ?thesis by simp
qed

subsection \<open>C5: GetConfidence\<close>

lemma ratio_bounds:
  fixes a b :: nat
  assumes "b \<le> a" and "0 < a"
  shows "0 \<le> (real a - real b) / real a" and "(real a - real b) / real a \<le> 1"
  using assms by simp_all

lemma state_inv_confidence:
  assumes inv: "state_inv maxRel s"
  shows "(GetConfidence s = DONT_KNOW \<longleftrightarrow> mTotalRel s \<le> mDataThreshold s) \<and>
    (if mTotalRel s \<le> mDataThreshold s then GetConfidence s = DONT_KNOW
     else GetConfidence s =
            (real (unat (mTotalRel s)) - real (unat (mRelSample s ! 0))) / real (unat (mTotalRel s)) \<and>
          0 \<le> GetConfidence s \<and> GetConfidence s \<le> 1)"
proof (cases "mTotalRel s \<le> mDataThreshold s")
  case True
  then show ?thesis by (simp add: GetConfidence_def not_less [symmetric])
next
  case False
  from inv have len: "0 < length (mRelSample s)"
    and tot: "sum_list (map unat (mRelSample s)) \<le> unat (mTotalRel s)"
    by (simp_all add: state_inv_def NUM_OF_CATEGORY_def)
  from len have "unat (mRelSample s ! 0) \<le> sum_list (map unat (mRelSample s))"
    using elem_le_sum_list [of 0 "map unat (mRelSample s)"] by simp
  with tot have le: "unat (mRelSample s ! 0) \<le> unat (mTotalRel s)" by simp
  then have "mRelSample s ! 0 \<le> mTotalRel s" by (simp add: word_le_nat_alt)
  then have sub: "unat (mTotalRel s - mRelSample s ! 0) = unat (mTotalRel s) - unat (mRelSample s ! 0)"
    by (rule unat_sub)
  from False have "mTotalRel s \<noteq> 0" by auto
  then have pos: "0 < unat (mTotalRel s)"
    by (simp add: unat_gt_0)
  have "GetConfidence s = real (unat (mTotalRel s - mRelSample s ! 0)) / real (unat (mTotalRel s))"
    using False by (simp add: GetConfidence_def not_le)
  then have c: "GetConfidence s =
      (real (unat (mTotalRel s)) - real (unat (mRelSample s ! 0))) / real (unat (mTotalRel s))"
    by (simp only: sub of_nat_diff [OF le])
  have b: "0 \<le> GetConfidence s" "GetConfidence s \<le> 1"
    unfolding c by (rule ratio_bounds [OF le pos])+
  then have "GetConfidence s \<noteq> DONT_KNOW"
    by (simp add: DONT_KNOW_def)
  with b c False show ?thesis by (simp only: if_False simp_thms)
qed

subsection \<open>C2, C3 and C4: the pending skip\<close>

text \<open>
  The only assignment to \<^verbatim>\<open>mNeedToSkipCharNum\<close> in \<^verbatim>\<open>HandleData\<close> stores the positive
  overshoot of a split character. So a call never clears the counter, and a chunk that is
  not longer than the pending skip leaves the whole state as it is.
\<close>

lemma skip_stays_positive:
  assumes "HandleData enc maxRel s aBuf = Inr t" and "mNeedToSkipCharNum s \<noteq> 0"
  shows "mNeedToSkipCharNum t \<noteq> 0"
proof (cases "mDone s")
  case True
  with assms show ?thesis by (simp add: HandleData_def)
next
  case False
  with assms(1) have
    "HandleData_loop enc maxRel aBuf (unat (mNeedToSkipCharNum s)) s = Inr t"
    by (simp add: HandleData_def)
  then show ?thesis
  proof (rule HandleData_loop_rule
      [where P = "\<lambda>s. mNeedToSkipCharNum s \<noteq> 0" and Q = "\<lambda>s. mNeedToSkipCharNum s \<noteq> 0", rotated -2])
    fix s :: JapaneseContextAnalysis and n :: nat
    assume "0 < n" "n < 3"
    then have "n = 1 \<or> n = 2" by auto
    then show "mNeedToSkipCharNum (s\<lparr>mNeedToSkipCharNum := of_nat n, mLastCharOrder := - 1\<rparr>) \<noteq> 0"
      by auto
  qed (use assms(2) in simp_all)
qed

lemma short_chunk_unchanged:
  "length aBuf \<le> unat (mNeedToSkipCharNum s) \<Longrightarrow> HandleData enc maxRel s aBuf = Inr s"
  by (simp add: HandleData_def HandleData_loop_end)

text \<open>
  C2, evaluated. An EUC-JP analyser is given the lead byte 0xA1 alone, which leaves one
  byte to skip, and then the chunk 0xA1 0x41, which holds that byte and one more
  character and ends at a character boundary. The pending skip is still 1 after the
  second call.
\<close>

theorem pending_skip_not_cleared:
  "ingest_all EUCJP 1000 initial_state [[0xA1]] =
     Inr \<lparr>mRelSample = [0, 0, 0, 0, 0, 0], mTotalRel = 0, mDataThreshold = 0,
           mLastCharOrder = - 1, mNeedToSkipCharNum = 1, mDone = False\<rparr> \<and>
   ingest_all EUCJP 1000 initial_state [[0xA1], [0xA1, 0x41]] =
     Inr \<lparr>mRelSample = [0, 0, 0, 0, 0, 0], mTotalRel = 0, mDataThreshold = 0,
           mLastCharOrder = - 1, mNeedToSkipCharNum = 1, mDone = False\<rparr>"
  by (simp add: run_simps)

text \<open>
  C3, evaluated. An EUC-JP analyser is given the lead byte 0x8F of a three-byte
  character alone, which leaves two bytes to skip, and then a chunk of one byte. The
  second call changes nothing: the pending skip is still 2, not 1.
\<close>

theorem short_chunk_keeps_pending_skip:
  "ingest_all EUCJP 1000 initial_state [[0x8F]] =
     Inr \<lparr>mRelSample = [0, 0, 0, 0, 0, 0], mTotalRel = 0, mDataThreshold = 0,
           mLastCharOrder = - 1, mNeedToSkipCharNum = 2, mDone = False\<rparr> \<and>
   ingest_all EUCJP 1000 initial_state [[0x8F], [0xA1]] =
     Inr \<lparr>mRelSample = [0, 0, 0, 0, 0, 0], mTotalRel = 0, mDataThreshold = 0,
           mLastCharOrder = - 1, mNeedToSkipCharNum = 2, mDone = False\<rparr>"
  by (simp add: run_simps)

text \<open>
  C4, evaluated. The Shift-JIS stream 0x83 0x40 0x82 0xA0 0x82 0xA2 (a katakana and two
  hiragana) is cut after its first byte in both chunkings, inside the same character at the
  same place; the second chunking has one more cut, at a character boundary. The first
  chunking counts the hiragana pair and has confidence 1, the second skips the first byte
  of its third chunk as well, counts nothing and returns the sentinel.
\<close>

theorem rechunking_changes_confidence:
  "concat [[0x83], [0x40, 0x82, 0xA0, 0x82, 0xA2]] = concat [[0x83], [0x40], [0x82, 0xA0, 0x82, 0xA2 :: byte]] \<and>
   ingest_all SJIS 1000 initial_state [[0x83], [0x40, 0x82, 0xA0, 0x82, 0xA2]] =
     Inr \<lparr>mRelSample = [0, 0, 0, 0, 1, 0], mTotalRel = 1, mDataThreshold = 0,
           mLastCharOrder = 3, mNeedToSkipCharNum = 1, mDone = False\<rparr> \<and>
   GetConfidence \<lparr>mRelSample = [0, 0, 0, 0, 1, 0], mTotalRel = 1, mDataThreshold = 0,
           mLastCharOrder = 3, mNeedToSkipCharNum = 1, mDone = False\<rparr> = 1 \<and>
   ingest_all SJIS 1000 initial_state [[0x83], [0x40], [0x82, 0xA0, 0x82, 0xA2]] =
     Inr \<lparr>mRelSample = [0, 0, 0, 0, 0, 0], mTotalRel = 0, mDataThreshold = 0,
           mLastCharOrder = 3, mNeedToSkipCharNum = 1, mDone = False\<rparr> \<and>
   GetConfidence \<lparr>mRelSample = [0, 0, 0, 0, 0, 0], mTotalRel = 0, mDataThreshold = 0,
           mLastCharOrder = 3, mNeedToSkipCharNum = 1, mDone = False\<rparr> = DONT_KNOW"
  by (simp add: run_simps GetConfidence_def)

subsection \<open>C10: the read past the end of the chunk\<close>

lemma GetOrder_single_byte:
  "i < length aBuf \<Longrightarrow> aBuf ! i < 0x80 \<Longrightarrow> GetOrder enc aBuf i = Inr (- 1, 1)"
  by (auto simp: GetOrder_def SJIS_GetOrder_def EUCJP_GetOrder_def deref_def Let_def
      word_le_def word_less_def word_uint_eq_iff split: encoding.splits)

lemma GetOrder_at_final_lead:
  assumes "aBuf \<noteq> []" and "last aBuf = (case enc of SJIS \<Rightarrow> 0x82 | EUCJP \<Rightarrow> 0xA4)"
  shows "GetOrder enc aBuf (length aBuf - 1) = Inl ReadPastEnd"
  using assms
  by (cases enc)
    (simp_all add: GetOrder_def SJIS_GetOrder_def EUCJP_GetOrder_def deref_def Let_def
      last_conv_nth)

lemma scan_single_bytes_then_lead:
  assumes len: "length pre + 1 < 2 ^ 32"
    and small: "\<forall>j. i \<le> j \<and> j < length pre \<longrightarrow> pre ! j < 0x80"
    and i: "i \<le> length pre"
  shows "HandleData_loop enc maxRel (pre @ [case enc of SJIS \<Rightarrow> 0x82 | EUCJP \<Rightarrow> 0xA4]) i s =
    Inl ReadPastEnd"
  using small i
proof (induction "length pre - i" arbitrary: i s)
  case 0
  then have "i = length pre" by simp
  then show ?case
    using GetOrder_at_final_lead [of "pre @ [case enc of SJIS \<Rightarrow> 0x82 | EUCJP \<Rightarrow> 0xA4]" enc]
    by (subst HandleData_loop.simps) simp
next
  case (Suc d)
  then have lt: "i < length pre" by simp
  with Suc.prems have "(pre @ [case enc of SJIS \<Rightarrow> 0x82 | EUCJP \<Rightarrow> 0xA4]) ! i < 0x80"
    by (simp add: nth_append)
  with lt have g: "GetOrder enc (pre @ [case enc of SJIS \<Rightarrow> 0x82 | EUCJP \<Rightarrow> 0xA4]) i = Inr (- 1, 1)"
    by (intro GetOrder_single_byte) simp_all
  have "HandleData_loop enc maxRel (pre @ [case enc of SJIS \<Rightarrow> 0x82 | EUCJP \<Rightarrow> 0xA4]) (Suc i)
      (s\<lparr>mLastCharOrder := - 1\<rparr>) = Inl ReadPastEnd"
    using Suc.hyps(2) Suc.prems lt by (intro Suc.hyps(1)) auto
  then show ?case
    using lt len g by (subst HandleData_loop.simps) simp
qed

text \<open>
  C10 as stated fails: a last byte 0x82 need not be reached as the start of a character.
  In the Shift-JIS chunk 0x82 0x82 it is the second byte of a two-byte character, the scan
  ends at offset 2 and nothing is read past the end.
\<close>

theorem final_lead_byte_not_always_decoded:
  "last [0x82, 0x82 :: byte] = 0x82 \<and>
   HandleData SJIS 1000 initial_state [0x82, 0x82] =
     Inr \<lparr>mRelSample = [0, 0, 0, 0, 0, 0], mTotalRel = 0, mDataThreshold = 0,
           mLastCharOrder = - 1, mNeedToSkipCharNum = 0, mDone = False\<rparr>"
  by (simp add: run_simps)

text \<open>
  C10 (as amended). Let the last byte of a chunk be 0x82 for the Shift-JIS analyser or
  0xA4 for the EUC-JP analyser. Whenever the scan stands at that final offset, the decoder
  called there reads the byte one past the end of the chunk, before the loop compares the
  new offset with the length. The scan does get there: from every state that is not
  finished, if the bytes from the pending skip up to the last byte are all below 0x80
  (single-byte characters), \<^verbatim>\<open>HandleData\<close> ends in that read.
\<close>

theorem decoder_reads_past_chunk_end:
  assumes "last aBuf = (case enc of SJIS \<Rightarrow> 0x82 | EUCJP \<Rightarrow> 0xA4)"
    and "aBuf \<noteq> []" and "length aBuf < 2 ^ 32"
  shows "GetOrder enc aBuf (length aBuf - 1) = Inl ReadPastEnd \<and>
    HandleData_loop enc maxRel aBuf (length aBuf - 1) s = Inl ReadPastEnd \<and>
    (\<not> mDone s \<and> unat (mNeedToSkipCharNum s) < length aBuf \<and>
     list_all (\<lambda>b. b < 0x80) (drop (unat (mNeedToSkipCharNum s)) (butlast aBuf))
       \<longrightarrow> HandleData enc maxRel s aBuf = Inl ReadPastEnd)"
proof (intro conjI impI)
  show g: "GetOrder enc aBuf (length aBuf - 1) = Inl ReadPastEnd"
    using assms by (intro GetOrder_at_final_lead)
  show "HandleData_loop enc maxRel aBuf (length aBuf - 1) s = Inl ReadPastEnd"
    using assms(2) g by (subst HandleData_loop.simps) simp
  assume a: "\<not> mDone s \<and> unat (mNeedToSkipCharNum s) < length aBuf \<and>
     list_all (\<lambda>b. b < 0x80) (drop (unat (mNeedToSkipCharNum s)) (butlast aBuf))"
  from assms(1,2) have eq: "aBuf = butlast aBuf @ [case enc of SJIS \<Rightarrow> 0x82 | EUCJP \<Rightarrow> 0xA4]"
    by (metis append_butlast_last_id)
  have "HandleData_loop enc maxRel (butlast aBuf @ [case enc of SJIS \<Rightarrow> 0x82 | EUCJP \<Rightarrow> 0xA4])
      (unat (mNeedToSkipCharNum s)) s = Inl ReadPastEnd"
  proof (rule scan_single_bytes_then_lead)
    show "length (butlast aBuf) + 1 < 2 ^ 32" using assms(2,3) by simp
    show "unat (mNeedToSkipCharNum s) \<le> length (butlast aBuf)" using a by auto
    show "\<forall>j. unat (mNeedToSkipCharNum s) \<le> j \<and> j < length (butlast aBuf) \<longrightarrow> butlast aBuf ! j < 0x80"
    proof (intro allI impI)
      fix j assume j: "unat (mNeedToSkipCharNum s) \<le> j \<and> j < length (butlast aBuf)"
      then have "drop (unat (mNeedToSkipCharNum s)) (butlast aBuf) ! (j - unat (mNeedToSkipCharNum s)) = butlast aBuf ! j"
        by simp
      moreover have "j - unat (mNeedToSkipCharNum s) < length (drop (unat (mNeedToSkipCharNum s)) (butlast aBuf))"
        using j by auto
      ultimately show "butlast aBuf ! j < 0x80"
        using a by (metis list_all_length)
    qed
  qed
  with eq a show "HandleData enc maxRel s aBuf = Inl ReadPastEnd"
    by (simp add: HandleData_def)
qed

theorem decoder_reads_past_chunk_end_witness:
  "last [0x41, 0x42, 0xA4 :: byte] = (case EUCJP of SJIS \<Rightarrow> 0x82 | EUCJP \<Rightarrow> 0xA4) \<and>
   [0x41, 0x42, 0xA4 :: byte] \<noteq> [] \<and> length [0x41, 0x42, 0xA4 :: byte] < 2 ^ 32 \<and>
   \<not> mDone initial_state \<and> unat (mNeedToSkipCharNum initial_state) < length [0x41, 0x42, 0xA4 :: byte] \<and>
   list_all (\<lambda>b. b < 0x80) (drop (unat (mNeedToSkipCharNum initial_state)) (butlast [0x41, 0x42, 0xA4 :: byte])) \<and>
   GetOrder EUCJP [0x41, 0x42, 0xA4] (length [0x41, 0x42, 0xA4 :: byte] - 1) = Inl ReadPastEnd \<and>
   HandleData EUCJP 1000 initial_state [0x41, 0x42, 0xA4] = Inl ReadPastEnd"
proof -
  have h1: "last [0x41, 0x42, 0xA4 :: byte] = (case EUCJP of SJIS \<Rightarrow> 0x82 | EUCJP \<Rightarrow> 0xA4)"
    by simp
  have h2: "[0x41, 0x42, 0xA4 :: byte] \<noteq> []" by simp
  have h3: "length [0x41, 0x42, 0xA4 :: byte] < 2 ^ 32" by simp
  have h4: "\<not> mDone initial_state \<and> unat (mNeedToSkipCharNum initial_state) < length [0x41, 0x42, 0xA4 :: byte] \<and>
   list_all (\<lambda>b. b < 0x80) (drop (unat (mNeedToSkipCharNum initial_state)) (butlast [0x41, 0x42, 0xA4 :: byte]))"
    by (simp add: initial_state_def)
  from decoder_reads_past_chunk_end [OF h1 h2 h3, of 1000 initial_state] h1 h2 h3 h4
  show ?thesis by simp
qed

subsection \<open>Cutting a chunk at a character boundary\<close>

text \<open>
  What the chunking does preserve. If a call on \<open>xs\<close> starts and ends with no pending
  skip, so that \<open>xs\<close> ends where a character ends, then one call on \<open>xs @ ys\<close> gives
  what the call on \<open>xs\<close> followed by a call on \<open>ys\<close> gives.
\<close>

lemma deref_append: "deref xs i = Inr c \<Longrightarrow> deref (xs @ ys) i = Inr c"
  by (auto simp: deref_def nth_append split: if_splits)

lemma SJIS_GetOrder_append:
  assumes "SJIS_GetOrder xs i = Inr r"
  shows "SJIS_GetOrder (xs @ ys) i = Inr r"
proof -
  from assms obtain c where c: "deref xs i = Inr c"
    by (cases "deref xs i") (simp_all add: SJIS_GetOrder_def)
  show ?thesis
  proof (cases "c = 0x82")
    case True
    with assms c obtain d where d: "deref xs (i + 1) = Inr d"
      by (cases "deref xs (i + 1)") (simp_all add: SJIS_GetOrder_def Let_def)
    from assms True show ?thesis
      unfolding SJIS_GetOrder_def Let_def deref_append [OF c] deref_append [OF d] c d
      by simp
  next
    case False
    with assms show ?thesis
      unfolding SJIS_GetOrder_def Let_def deref_append [OF c] c
      by simp
  qed
qed

lemma EUCJP_GetOrder_append:
  assumes "EUCJP_GetOrder xs i = Inr r"
  shows "EUCJP_GetOrder (xs @ ys) i = Inr r"
proof -
  from assms obtain c where c: "deref xs i = Inr c"
    by (cases "deref xs i") (simp_all add: EUCJP_GetOrder_def)
  show ?thesis
  proof (cases "c = 0xA4")
    case True
    with assms c obtain d where d: "deref xs (i + 1) = Inr d"
      by (cases "deref xs (i + 1)") (simp_all add: EUCJP_GetOrder_def Let_def)
    from assms True show ?thesis
      unfolding EUCJP_GetOrder_def Let_def deref_append [OF c] deref_append [OF d] c d
      by simp
  next
    case False
    with assms show ?thesis
      unfolding EUCJP_GetOrder_def Let_def deref_append [OF c] c
      by simp
  qed
qed

lemma GetOrder_append:
  "GetOrder enc xs i = Inr r \<Longrightarrow> GetOrder enc (xs @ ys) i = Inr r"
  by (cases enc) (simp_all add: GetOrder_def SJIS_GetOrder_append EUCJP_GetOrder_append)


lemma GetOrder_shift:
  "GetOrder enc (xs @ ys) (length xs + j) = GetOrder enc ys j"
  by (simp add: GetOrder_def SJIS_GetOrder_def EUCJP_GetOrder_def deref_def Let_def nth_append
      split: encoding.splits)

lemma HandleData_loop_shift:
  assumes len: "length xs + length ys + 2 < 2 ^ 32"
  shows "HandleData_loop enc maxRel (xs @ ys) (length xs + j) s = HandleData_loop enc maxRel ys j s"
proof (induction "length ys - j" arbitrary: j s rule: less_induct)
  case less
  show ?case
  proof (cases "j < length ys")
    case False
    then show ?thesis by (simp add: HandleData_loop_end)
  next
    case True
    show ?thesis
    proof (cases "GetOrder enc ys j")
      case (Inl e)
      then show ?thesis
        using True
        by (subst HandleData_loop.simps, subst (2) HandleData_loop.simps)
          (simp add: GetOrder_shift)
    next
      case (Inr r)
      obtain order charLen where r: "r = (order, charLen)" by (cases r)
      note g = Inr [unfolded r]
      note rg = GetOrder_range [OF g]
      from rg True have dec: "length ys - (j + charLen) < length ys - j" by auto
      have IH: "HandleData_loop enc maxRel (xs @ ys) (length xs + j + charLen) s' =
          HandleData_loop enc maxRel ys (j + charLen) s'" for s'
        using less.hyps [OF dec, of s'] by (simp add: add.assoc)
      from rg True len have no: "\<not> 2 ^ 32 \<le> length xs + j + charLen" "\<not> 2 ^ 32 \<le> j + charLen"
        by auto
      show ?thesis
        using True g no
        by (subst HandleData_loop.simps, subst (2) HandleData_loop.simps)
          (simp add: GetOrder_shift IH split: sum.splits)
    qed
  qed
qed


lemma HandleData_loop_prefix:
  "HandleData_loop enc maxRel xs i s = Inr s1 \<Longrightarrow> \<not> mDone s \<Longrightarrow> mNeedToSkipCharNum s = 0 \<Longrightarrow>
   mNeedToSkipCharNum s1 = 0 \<Longrightarrow> i \<le> length xs \<Longrightarrow>
   HandleData_loop enc maxRel (xs @ ys) i s =
     (if mDone s1 then Inr s1 else HandleData_loop enc maxRel (xs @ ys) (length xs) s1)"
proof (induction "length xs - i" arbitrary: i s rule: less_induct)
  case less
  note res = less.prems(1) and nd = less.prems(2) and sk = less.prems(3) and sk1 = less.prems(4)
  show ?case
  proof (cases "i < length xs")
    case False
    with less.prems(5) have i: "i = length xs" by simp
    with res have "s1 = s" by (simp add: HandleData_loop_end)
    with nd i show ?thesis by simp
  next
    case True
    from res True obtain order charLen where
      g: "GetOrder enc xs i = Inr (order, charLen)"
      by (subst (asm) HandleData_loop.simps) (auto split: sum.splits)
    note g' = GetOrder_append [OF g, of ys]
    note r = GetOrder_range [OF g]
    from r True have dec: "length xs - (i + charLen) < length xs - i"
      by auto
    from res True g have ov: "\<not> 2 ^ 32 \<le> i + charLen"
      by (subst (asm) HandleData_loop.simps) (auto split: if_splits)
    have nosplit: "i + charLen \<le> length xs"
    proof (rule ccontr)
      assume "\<not> i + charLen \<le> length xs"
      then have sp: "length xs < i + charLen" by simp
      with res True g ov have
        "s1 = s\<lparr>mNeedToSkipCharNum := of_nat (i + charLen - length xs), mLastCharOrder := - 1\<rparr>"
        by (subst (asm) HandleData_loop.simps) (simp add: HandleData_loop_end)
      moreover from sp True r have "i + charLen - length xs = 1 \<or> i + charLen - length xs = 2"
        by auto
      ultimately show False using sk1 by auto
    qed
    show ?thesis
    proof (cases "order \<noteq> - 1 \<and> mLastCharOrder s \<noteq> - 1")
      case pair: True
      show ?thesis
      proof (cases "maxRel < mTotalRel s + 1")
        case True
        with res \<open>i < length xs\<close> g ov nosplit pair
        have s1: "s1 = s\<lparr>mTotalRel := mTotalRel s + 1, mDone := True\<rparr>"
          by (subst (asm) HandleData_loop.simps) simp
        show ?thesis
          using \<open>i < length xs\<close> g' ov nosplit pair True
          by (subst HandleData_loop.simps) (simp add: s1)
      next
        case False
        from res \<open>i < length xs\<close> g ov nosplit pair False obtain rs where
          c: "count_relation (mLastCharOrder s) order (mRelSample s) = Inr rs"
          by (subst (asm) HandleData_loop.simps) (auto split: sum.splits)
        let ?s = "s\<lparr>mTotalRel := mTotalRel s + 1, mRelSample := rs, mLastCharOrder := order\<rparr>"
        have r1: "HandleData_loop enc maxRel xs (i + charLen) ?s = Inr s1"
          using res \<open>i < length xs\<close> g ov nosplit pair False c
          by (subst (asm) HandleData_loop.simps) simp
        have "HandleData_loop enc maxRel (xs @ ys) (i + charLen) ?s =
            (if mDone s1 then Inr s1 else HandleData_loop enc maxRel (xs @ ys) (length xs) s1)"
          using dec r1 nd sk sk1 nosplit by (intro less.hyps) simp_all
        then show ?thesis
          using \<open>i < length xs\<close> g' ov nosplit pair False c
          by (subst HandleData_loop.simps) simp
      qed
    next
      case nopair: False
      let ?s = "s\<lparr>mLastCharOrder := order\<rparr>"
      have r1: "HandleData_loop enc maxRel xs (i + charLen) ?s = Inr s1"
        using res True g ov nosplit nopair
        by (subst (asm) HandleData_loop.simps) auto
      have "HandleData_loop enc maxRel (xs @ ys) (i + charLen) ?s =
          (if mDone s1 then Inr s1 else HandleData_loop enc maxRel (xs @ ys) (length xs) s1)"
        using dec r1 nd sk sk1 nosplit by (intro less.hyps) simp_all
      then show ?thesis
        using True g' ov nosplit nopair
        by (subst HandleData_loop.simps) auto
    qed
  qed
qed

lemma split_at_character_boundary:
  assumes "HandleData enc maxRel s xs = Inr s1"
    and "mNeedToSkipCharNum s = 0" and "mNeedToSkipCharNum s1 = 0"
    and "length xs + length ys + 2 < 2 ^ 32"
  shows "HandleData enc maxRel s (xs @ ys) = HandleData enc maxRel s1 ys"
proof (cases "mDone s")
  case True
  with assms(1) show ?thesis by (simp add: HandleData_def)
next
  case False
  with assms(1,2) have res: "HandleData_loop enc maxRel xs 0 s = Inr s1"
    by (simp add: HandleData_def)
  from HandleData_loop_prefix [OF res False assms(2,3), of ys]
    HandleData_loop_shift [OF assms(4), of enc maxRel 0 s1]
  show ?thesis
    using False assms(2,3) by (simp add: HandleData_def)
qed


lemma ingest_all_merge_chunks:
  assumes "HandleData enc maxRel s xs = Inr s1"
    and "mNeedToSkipCharNum s = 0" and "mNeedToSkipCharNum s1 = 0"
    and "length xs + length ys + 2 < 2 ^ 32"
  shows "ingest_all enc maxRel s (xs # ys # chunks) = ingest_all enc maxRel s ((xs @ ys) # chunks)"
  using assms(1) split_at_character_boundary [OF assms] by simp

subsection \<open>The table and counter indices stay in range\<close>

text \<open>
  From the initial state no call ever indexes \<^verbatim>\<open>jp2CharContext\<close> or \<^verbatim>\<open>mRelSample\<close>
  out of range: the only errors left are the read past the chunk and the offset overflow.
\<close>

lemma GetOrder_Inl: "GetOrder enc aBuf i = Inl e \<Longrightarrow> e = ReadPastEnd"
  by (auto simp: GetOrder_def SJIS_GetOrder_def EUCJP_GetOrder_def deref_def Let_def
      split: encoding.splits if_splits)

lemma count_relation_in_range:
  assumes "0 \<le> a" "a \<le> 82" "0 \<le> b" "b \<le> 82" "length rs = NUM_OF_CATEGORY"
  shows "\<exists>rs'. count_relation a b rs = Inr rs' \<and> length rs' = NUM_OF_CATEGORY"
proof -
  from assms have "nat a < 83" "nat b < 83" by simp_all
  then have "unat (jp2CharContext ! nat a ! nat b) < 6" by (rule jp2_range)
  with assms show ?thesis
    by (simp add: count_relation_def Let_def NUM_OF_CATEGORY_def)
qed

lemma HandleData_loop_no_index_error:
  "length (mRelSample s) = NUM_OF_CATEGORY \<Longrightarrow> - 1 \<le> mLastCharOrder s \<Longrightarrow> mLastCharOrder s \<le> 82 \<Longrightarrow>
   HandleData_loop enc maxRel aBuf i s \<noteq> Inl IndexOutOfRange"
proof (induction "length aBuf - i" arbitrary: i s rule: less_induct)
  case less
  show ?case
  proof (cases "i < length aBuf")
    case False
    then show ?thesis by (simp add: HandleData_loop_end)
  next
    case True
    show ?thesis
    proof (cases "GetOrder enc aBuf i")
      case (Inl e)
      with GetOrder_Inl [OF Inl] True show ?thesis
        by (subst HandleData_loop.simps) simp
    next
      case (Inr r)
      obtain order charLen where r: "r = (order, charLen)" by (cases r)
      note g = Inr [unfolded r]
      note rg = GetOrder_range [OF g]
      from rg True have dec: "length aBuf - (i + charLen) < length aBuf - i" by auto
      have IH: "HandleData_loop enc maxRel aBuf (i + charLen) s' \<noteq> Inl IndexOutOfRange"
        if "length (mRelSample s') = NUM_OF_CATEGORY" "- 1 \<le> mLastCharOrder s'" "mLastCharOrder s' \<le> 82"
        for s'
        using dec that by (rule less.hyps)
      show ?thesis
      proof (cases "2 ^ 32 \<le> i + charLen")
        case True
        with \<open>i < length aBuf\<close> g show ?thesis
          by (subst HandleData_loop.simps) simp
      next
        case ov: False
        show ?thesis
        proof (cases "length aBuf < i + charLen")
          case True
          with \<open>i < length aBuf\<close> g ov less.prems show ?thesis
            by (subst HandleData_loop.simps) (simp add: IH)
        next
          case nosplit: False
          show ?thesis
          proof (cases "order \<noteq> - 1 \<and> mLastCharOrder s \<noteq> - 1")
            case pair: True
            with rg less.prems obtain rs' where
              c: "count_relation (mLastCharOrder s) order (mRelSample s) = Inr rs'"
                "length rs' = NUM_OF_CATEGORY"
              using count_relation_in_range [of "mLastCharOrder s" order "mRelSample s"] by auto
            from pair rg have ob: "- 1 \<le> order" "order \<le> 82" by auto
            have "HandleData_loop enc maxRel aBuf (i + charLen)
                (s\<lparr>mTotalRel := mTotalRel s + 1, mRelSample := rs', mLastCharOrder := order\<rparr>)
                \<noteq> Inl IndexOutOfRange"
              using c(2) ob by (intro IH) simp_all
            with \<open>i < length aBuf\<close> g ov nosplit pair c(1) show ?thesis
              by (subst HandleData_loop.simps) simp
          next
            case False
            from rg have ob: "- 1 \<le> order" "order \<le> 82" by auto
            have "HandleData_loop enc maxRel aBuf (i + charLen) (s\<lparr>mLastCharOrder := order\<rparr>)
                \<noteq> Inl IndexOutOfRange"
              using less.prems(1) ob by (intro IH) simp_all
            with \<open>i < length aBuf\<close> g ov nosplit False show ?thesis
              by (subst HandleData_loop.simps) auto
          qed
        qed
      qed
    qed
  qed
qed

lemma run_no_index_error:
  "state_inv maxRel s \<Longrightarrow> unat maxRel < 2 ^ 32 - 1 \<Longrightarrow> run enc maxRel s calls \<noteq> Inl IndexOutOfRange"
proof (induction calls arbitrary: s)
  case Nil
  then show ?case by simp
next
  case (Cons c calls)
  show ?case
  proof (cases c)
    case (Ingest aBuf)
    have "HandleData enc maxRel s aBuf \<noteq> Inl IndexOutOfRange"
      using Cons.prems(1) HandleData_loop_no_index_error [of s enc maxRel aBuf]
      by (simp add: HandleData_def state_inv_def)
    moreover have "run enc maxRel s1 calls \<noteq> Inl IndexOutOfRange"
      if "HandleData enc maxRel s aBuf = Inr s1" for s1
      using state_inv_HandleData [OF Cons.prems(2) that Cons.prems(1)] Cons.prems(2)
      by (rule Cons.IH)
    ultimately show ?thesis
      using Ingest by (auto split: sum.splits)
  next
    case ResetCall
    with Cons state_inv_Reset [of maxRel s] show ?thesis by simp
  qed
qed

subsection \<open>The calls as executed\<close>

lemma GetOrder_exec_range:
  "GetOrder_exec enc aBuf past i = (order, charLen) \<Longrightarrow>
     (order = - 1 \<or> (0 \<le> order \<and> order \<le> 82)) \<and> (charLen = 1 \<or> charLen = 2 \<or> charLen = 3)"
  by (auto simp: GetOrder_exec_def SJIS_GetOrder_exec_def EUCJP_GetOrder_exec_def Let_def
      word_le_def split: encoding.splits if_splits)

lemma peek_deref: "deref aBuf p = Inr c \<Longrightarrow> peek aBuf past p = c"
  by (auto simp: deref_def peek_def split: if_splits)

lemma SJIS_GetOrder_exec_checked:
  assumes "SJIS_GetOrder aBuf p = Inr r"
  shows "SJIS_GetOrder_exec aBuf past p = r"
proof -
  from assms obtain c where c: "deref aBuf p = Inr c"
    by (cases "deref aBuf p") (simp_all add: SJIS_GetOrder_def)
  show ?thesis
  proof (cases "c = 0x82")
    case True
    with assms c obtain d where d: "deref aBuf (p + 1) = Inr d"
      by (cases "deref aBuf (p + 1)") (simp_all add: SJIS_GetOrder_def Let_def)
    from assms True show ?thesis
      unfolding SJIS_GetOrder_def SJIS_GetOrder_exec_def Let_def
        peek_deref [OF c] peek_deref [OF d] c d
      by (auto split: if_splits)
  next
    case False
    with assms show ?thesis
      unfolding SJIS_GetOrder_def SJIS_GetOrder_exec_def Let_def peek_deref [OF c] c
      by simp
  qed
qed

lemma EUCJP_GetOrder_exec_checked:
  assumes "EUCJP_GetOrder aBuf p = Inr r"
  shows "EUCJP_GetOrder_exec aBuf past p = r"
proof -
  from assms obtain c where c: "deref aBuf p = Inr c"
    by (cases "deref aBuf p") (simp_all add: EUCJP_GetOrder_def)
  show ?thesis
  proof (cases "c = 0xA4")
    case True
    with assms c obtain d where d: "deref aBuf (p + 1) = Inr d"
      by (cases "deref aBuf (p + 1)") (simp_all add: EUCJP_GetOrder_def Let_def)
    from assms True show ?thesis
      unfolding EUCJP_GetOrder_def EUCJP_GetOrder_exec_def Let_def
        peek_deref [OF c] peek_deref [OF d] c d
      by (auto split: if_splits)
  next
    case False
    with assms show ?thesis
      unfolding EUCJP_GetOrder_def EUCJP_GetOrder_exec_def Let_def peek_deref [OF c] c
      by simp
  qed
qed

lemma GetOrder_exec_checked:
  "GetOrder enc aBuf p = Inr r \<Longrightarrow> GetOrder_exec enc aBuf past p = r"
  by (cases enc)
    (simp_all add: GetOrder_def GetOrder_exec_def SJIS_GetOrder_exec_checked
      EUCJP_GetOrder_exec_checked)

lemma HandleData_exec_loop_end:
  "length aBuf \<le> i \<Longrightarrow> HandleData_exec_loop enc maxRel aBuf past i s = Some (Inr s)"
  by (subst HandleData_exec_loop.simps) simp

text \<open>
  Where the checked call returns a state, the call as executed returns the same state,
  whatever follows the chunk in memory.
\<close>

lemma HandleData_exec_loop_checked:
  "HandleData_loop enc maxRel aBuf i s = Inr t \<Longrightarrow>
   HandleData_exec_loop enc maxRel aBuf past i s = Some (Inr t)"
proof (induction "length aBuf - i" arbitrary: i s rule: less_induct)
  case less
  note res = less.prems
  show ?case
  proof (cases "i < length aBuf")
    case False
    with res show ?thesis
      by (simp add: HandleData_loop_end HandleData_exec_loop_end)
  next
    case True
    from res True obtain order charLen where
      g: "GetOrder enc aBuf i = Inr (order, charLen)"
      by (subst (asm) HandleData_loop.simps) (auto split: sum.splits)
    note g' = GetOrder_exec_checked [OF g, of past]
    note r = GetOrder_range [OF g]
    from r True have dec: "length aBuf - (i + charLen) < length aBuf - i"
      by auto
    from res True g have ov: "\<not> 2 ^ 32 \<le> i + charLen"
      by (subst (asm) HandleData_loop.simps) (auto split: if_splits)
    then have m: "(i + charLen) mod 2 ^ 32 = i + charLen" by simp
    have IH: "HandleData_exec_loop enc maxRel aBuf past (i + charLen) s' = Some (Inr t)"
      if "HandleData_loop enc maxRel aBuf (i + charLen) s' = Inr t" for s'
      using dec that by (rule less.hyps)
    show ?thesis
    proof (cases "length aBuf < i + charLen")
      case split: True
      have "HandleData_loop enc maxRel aBuf (i + charLen)
          (s\<lparr>mNeedToSkipCharNum := of_nat (i + charLen - length aBuf), mLastCharOrder := - 1\<rparr>) = Inr t"
        using res True g ov split by (subst (asm) HandleData_loop.simps) simp
      from IH [OF this] show ?thesis
        using True g' m split by (subst HandleData_exec_loop.simps) simp
    next
      case nosplit: False
      show ?thesis
      proof (cases "order \<noteq> - 1 \<and> mLastCharOrder s \<noteq> - 1")
        case pair: True
        show ?thesis
        proof (cases "maxRel < mTotalRel s + 1")
          case True
          with res \<open>i < length aBuf\<close> g ov nosplit pair
          have "t = s\<lparr>mTotalRel := mTotalRel s + 1, mDone := True\<rparr>"
            by (subst (asm) HandleData_loop.simps) simp
          then show ?thesis
            using \<open>i < length aBuf\<close> g' m nosplit pair True
            by (subst HandleData_exec_loop.simps) simp
        next
          case False
          from res \<open>i < length aBuf\<close> g ov nosplit pair False obtain rs where
            c: "count_relation (mLastCharOrder s) order (mRelSample s) = Inr rs"
            by (subst (asm) HandleData_loop.simps) (auto split: sum.splits)
          have "HandleData_loop enc maxRel aBuf (i + charLen)
              (s\<lparr>mTotalRel := mTotalRel s + 1, mRelSample := rs, mLastCharOrder := order\<rparr>) = Inr t"
            using res \<open>i < length aBuf\<close> g ov nosplit pair False c
            by (subst (asm) HandleData_loop.simps) simp
          from IH [OF this] show ?thesis
            using \<open>i < length aBuf\<close> g' m nosplit pair False c
            by (subst HandleData_exec_loop.simps) simp
        qed
      next
        case nopair: False
        have "HandleData_loop enc maxRel aBuf (i + charLen) (s\<lparr>mLastCharOrder := order\<rparr>) = Inr t"
          using res True g ov nosplit nopair
          by (subst (asm) HandleData_loop.simps) auto
        from IH [OF this] show ?thesis
          using True g' m nosplit nopair
          by (subst HandleData_exec_loop.simps) auto
      qed
    qed
  qed
qed

lemma HandleData_exec_checked:
  "HandleData enc maxRel s aBuf = Inr t \<Longrightarrow> HandleData_exec enc maxRel s aBuf past = Some (Inr t)"
  by (auto simp: HandleData_def HandleData_exec_def HandleData_exec_loop_checked split: if_splits)


text \<open>
  The rule for the loop as executed: an invariant \<open>P\<close> of the loop that makes every
  table lookup stay in range gives the postcondition \<open>Q\<close> for every call that returns.
\<close>

lemma HandleData_exec_loop_rule:
  assumes sp: "\<And>s n. P s \<Longrightarrow> 0 < n \<Longrightarrow> n < 3 \<Longrightarrow>
           P (s\<lparr>mNeedToSkipCharNum := of_nat n, mLastCharOrder := - 1\<rparr>)"
    and fin: "\<And>s. P s \<Longrightarrow> mLastCharOrder s \<noteq> - 1 \<Longrightarrow> maxRel < mTotalRel s + 1 \<Longrightarrow>
           Q (s\<lparr>mTotalRel := mTotalRel s + 1, mDone := True\<rparr>)"
    and ex: "\<And>s. P s \<Longrightarrow> Q s"
    and idx: "\<And>s order. P s \<Longrightarrow> 0 \<le> order \<Longrightarrow> order \<le> 82 \<Longrightarrow> mLastCharOrder s \<noteq> - 1 \<Longrightarrow>
           \<exists>rs. count_relation (mLastCharOrder s) order (mRelSample s) = Inr rs"
    and rel: "\<And>s order rs. P s \<Longrightarrow> 0 \<le> order \<Longrightarrow> order \<le> 82 \<Longrightarrow> mLastCharOrder s \<noteq> - 1 \<Longrightarrow>
           \<not> maxRel < mTotalRel s + 1 \<Longrightarrow>
           count_relation (mLastCharOrder s) order (mRelSample s) = Inr rs \<Longrightarrow>
           P (s\<lparr>mTotalRel := mTotalRel s + 1, mRelSample := rs, mLastCharOrder := order\<rparr>)"
    and oth: "\<And>s order. P s \<Longrightarrow> order = - 1 \<or> (0 \<le> order \<and> order \<le> 82) \<Longrightarrow>
           P (s\<lparr>mLastCharOrder := order\<rparr>)"
    and run: "HandleData_exec_loop enc maxRel aBuf past i s = Some r"
    and Ps: "P s"
  shows "\<exists>t. r = Inr t \<and> Q t"
proof -
  have "maxRel = maxRel \<longrightarrow> P s \<longrightarrow> (\<exists>t. r = Inr t \<and> Q t)"
  proof (rule HandleData_exec_loop.raw_induct
      [where P = "\<lambda>e m b p i s r. m = maxRel \<longrightarrow> P s \<longrightarrow> (\<exists>t. r = Inr t \<and> Q t)", OF _ run])
    fix f :: "encoding \<Rightarrow> u32 \<Rightarrow> byte list \<Rightarrow> byte \<Rightarrow> nat \<Rightarrow> JapaneseContextAnalysis
         \<Rightarrow> (error + JapaneseContextAnalysis) option"
      and enc m aBuf past i s r
    assume IH: "\<And>e m b p i s r. f e m b p i s = Some r \<Longrightarrow>
        m = maxRel \<longrightarrow> P s \<longrightarrow> (\<exists>t. r = Inr t \<and> Q t)"
    assume body: "(if i < length aBuf then
        (case GetOrder_exec enc aBuf past i of
           (order, charLen) \<Rightarrow>
             let i' = (i + charLen) mod 2 ^ 32 in
             if length aBuf < i' then
               f enc m aBuf past i'
                 (s\<lparr>mNeedToSkipCharNum := of_nat (i' - length aBuf),
                    mLastCharOrder := - 1\<rparr>)
             else if order \<noteq> - 1 \<and> mLastCharOrder s \<noteq> - 1 then
               (if m < mTotalRel s + 1 then
                  Some (Inr (s\<lparr>mTotalRel := mTotalRel s + 1, mDone := True\<rparr>))
                else
                  (case count_relation (mLastCharOrder s) order (mRelSample s) of
                     Inl e \<Rightarrow> Some (Inl e)
                   | Inr rs \<Rightarrow>
                       f enc m aBuf past i'
                         (s\<lparr>mTotalRel := mTotalRel s + 1, mRelSample := rs,
                            mLastCharOrder := order\<rparr>)))
             else
               f enc m aBuf past i' (s\<lparr>mLastCharOrder := order\<rparr>))
      else Some (Inr s)) = Some r"
    show "m = maxRel \<longrightarrow> P s \<longrightarrow> (\<exists>t. r = Inr t \<and> Q t)"
    proof (intro impI)
      assume m: "m = maxRel" and Ps: "P s"
      show "\<exists>t. r = Inr t \<and> Q t"
      proof (cases "i < length aBuf")
        case False
        with body ex [OF Ps] show ?thesis by auto
      next
        case True
        obtain order charLen where g: "GetOrder_exec enc aBuf past i = (order, charLen)"
          by (cases "GetOrder_exec enc aBuf past i")
        note rg = GetOrder_exec_range [OF g]
        define i' where "i' = (i + charLen) mod 2 ^ 32"
        have le: "i' \<le> i + charLen" unfolding i'_def by (rule mod_less_eq_dividend)
        show ?thesis
        proof (cases "length aBuf < i'")
          case split: True
          let ?s = "s\<lparr>mNeedToSkipCharNum := of_nat (i' - length aBuf), mLastCharOrder := - 1\<rparr>"
          from body True g split have "f enc m aBuf past i' ?s = Some r"
            by (simp add: i'_def Let_def)
          moreover have "P ?s"
            using True split le rg by (intro sp Ps) auto
          ultimately show ?thesis using IH m by blast
        next
          case nosplit: False
          show ?thesis
          proof (cases "order \<noteq> - 1 \<and> mLastCharOrder s \<noteq> - 1")
            case pair: True
            with rg have ob: "0 \<le> order" "order \<le> 82" by auto
            show ?thesis
            proof (cases "maxRel < mTotalRel s + 1")
              case True
              with body \<open>i < length aBuf\<close> g nosplit pair m
              have "r = Inr (s\<lparr>mTotalRel := mTotalRel s + 1, mDone := True\<rparr>)"
                by (auto simp: i'_def Let_def)
              with fin [OF Ps _ True] pair show ?thesis by simp
            next
              case False
              from idx [OF Ps ob] pair obtain rs where
                c: "count_relation (mLastCharOrder s) order (mRelSample s) = Inr rs"
                by blast
              let ?s = "s\<lparr>mTotalRel := mTotalRel s + 1, mRelSample := rs, mLastCharOrder := order\<rparr>"
              from body \<open>i < length aBuf\<close> g nosplit pair m False c
              have "f enc m aBuf past i' ?s = Some r"
                by (simp add: i'_def Let_def)
              moreover have "P ?s"
                using pair ob False c by (intro rel Ps) auto
              ultimately show ?thesis using IH m by blast
            qed
          next
            case nopair: False
            let ?s = "s\<lparr>mLastCharOrder := order\<rparr>"
            from body True g nosplit nopair have "f enc m aBuf past i' ?s = Some r"
              by (auto simp: i'_def Let_def)
            moreover have "P ?s"
              using rg by (intro oth Ps) auto
            ultimately show ?thesis using IH m by blast
          qed
        qed
      qed
    qed
  qed
  with Ps show ?thesis by simp
qed


lemma state_inv_exec_loop:
  assumes M: "unat maxRel < 2 ^ 32 - 1"
    and res: "HandleData_exec_loop enc maxRel aBuf past i s = Some r"
    and inv: "state_inv maxRel s" and nd: "\<not> mDone s"
  shows "\<exists>t. r = Inr t \<and> state_inv maxRel t"
proof (rule HandleData_exec_loop_rule
    [where P = "\<lambda>s. state_inv maxRel s \<and> \<not> mDone s" and Q = "state_inv maxRel",
      OF _ _ _ _ _ _ res])
  show "state_inv maxRel s \<and> \<not> mDone s" using inv nd by simp
next
  fix s n assume "state_inv maxRel s \<and> \<not> mDone s"
  then show "state_inv maxRel (s\<lparr>mNeedToSkipCharNum := of_nat n, mLastCharOrder := - 1\<rparr>) \<and>
     \<not> mDone (s\<lparr>mNeedToSkipCharNum := of_nat n, mLastCharOrder := - 1\<rparr>)"
    by (auto simp: state_inv_def)
next
  fix s assume a: "state_inv maxRel s \<and> \<not> mDone s"
  then have "unat (mTotalRel s) \<le> unat maxRel"
    by (auto simp: state_inv_def word_le_nat_alt)
  with M have "unat (mTotalRel s + 1) = unat (mTotalRel s) + 1"
    by (intro unat_succ) simp
  with a show "state_inv maxRel (s\<lparr>mTotalRel := mTotalRel s + 1, mDone := True\<rparr>)"
    by (auto simp: state_inv_def)
next
  fix s assume "state_inv maxRel s \<and> \<not> mDone s"
  then show "state_inv maxRel s" by simp
next
  fix s and order :: int
  assume a: "state_inv maxRel s \<and> \<not> mDone s" and o: "0 \<le> order" "order \<le> 82"
    and l: "mLastCharOrder s \<noteq> - 1"
  then have "\<exists>rs'. count_relation (mLastCharOrder s) order (mRelSample s) = Inr rs' \<and>
      length rs' = NUM_OF_CATEGORY"
    by (intro count_relation_in_range) (auto simp: state_inv_def)
  then show "\<exists>rs. count_relation (mLastCharOrder s) order (mRelSample s) = Inr rs"
    by blast
next
  fix s order rs
  assume a: "state_inv maxRel s \<and> \<not> mDone s" and o: "0 \<le> order" "order \<le> 82"
    and nl: "\<not> maxRel < mTotalRel s + 1"
    and c: "count_relation (mLastCharOrder s) order (mRelSample s) = Inr rs"
  from a have le: "unat (mTotalRel s) \<le> unat maxRel"
    by (auto simp: state_inv_def word_le_nat_alt)
  with M have t1: "unat (mTotalRel s + 1) = unat (mTotalRel s) + 1"
    by (intro unat_succ) simp
  from a have sum: "unat (mTotalRel s) = sum_list (map unat (mRelSample s))"
    by (auto simp: state_inv_def)
  from count_relation_Inr [OF c] obtain k where
    k: "k < length (mRelSample s)" "rs = (mRelSample s)[k := mRelSample s ! k + 1]"
    by blast
  have "sum_list (map unat rs) = sum_list (map unat (mRelSample s)) + 1"
    unfolding k(2) using k(1) le M sum by (intro sum_unat_bump) simp_all
  with a o nl t1 k
  show "state_inv maxRel (s\<lparr>mTotalRel := mTotalRel s + 1, mRelSample := rs, mLastCharOrder := order\<rparr>) \<and>
     \<not> mDone (s\<lparr>mTotalRel := mTotalRel s + 1, mRelSample := rs, mLastCharOrder := order\<rparr>)"
    by (auto simp: state_inv_def not_less)
next
  fix s and order :: int
  assume "state_inv maxRel s \<and> \<not> mDone s" "order = - 1 \<or> 0 \<le> order \<and> order \<le> 82"
  then show "state_inv maxRel (s\<lparr>mLastCharOrder := order\<rparr>) \<and> \<not> mDone (s\<lparr>mLastCharOrder := order\<rparr>)"
    by (auto simp: state_inv_def)
qed

lemma state_inv_HandleData_exec:
  assumes "unat maxRel < 2 ^ 32 - 1" and "HandleData_exec enc maxRel s aBuf past = Some r"
    and "state_inv maxRel s"
  shows "\<exists>t. r = Inr t \<and> state_inv maxRel t"
proof (cases "mDone s")
  case True
  with assms show ?thesis by (auto simp: HandleData_exec_def)
next
  case False
  with assms(2) have
    "HandleData_exec_loop enc maxRel aBuf past (unat (mNeedToSkipCharNum s)) s = Some r"
    by (simp add: HandleData_exec_def)
  from state_inv_exec_loop [OF assms(1) this assms(3) False] show ?thesis .
qed

lemma state_inv_run_exec:
  "unat maxRel < 2 ^ 32 - 1 \<Longrightarrow> run_exec enc maxRel s calls = Some r \<Longrightarrow> state_inv maxRel s \<Longrightarrow>
     \<exists>t. r = Inr t \<and> state_inv maxRel t"
proof (induction calls arbitrary: s)
  case Nil
  then show ?case by auto
next
  case (Cons c calls)
  show ?case
  proof (cases c)
    case (Exec_Ingest aBuf past)
    with Cons.prems(2) obtain r1 where
      h: "HandleData_exec enc maxRel s aBuf past = Some r1"
      by (cases "HandleData_exec enc maxRel s aBuf past") auto
    from state_inv_HandleData_exec [OF Cons.prems(1) h Cons.prems(3)] obtain s1 where
      s1: "r1 = Inr s1" "state_inv maxRel s1" by blast
    with Cons.prems(2) Exec_Ingest h have "run_exec enc maxRel s1 calls = Some r" by simp
    from Cons.IH [OF Cons.prems(1) this s1(2)] show ?thesis .
  next
    case Exec_Reset
    with Cons.prems have "run_exec enc maxRel (Reset s) calls = Some r" by simp
    from Cons.IH [OF Cons.prems(1) this state_inv_Reset [OF Cons.prems(3)]]
    show ?thesis .
  qed
qed

text \<open>
  A call returns unless the offset wraps, which needs a chunk of at least \<open>2^32 - 2\<close>
  bytes.
\<close>

lemma HandleData_exec_loop_returns:
  assumes len: "length aBuf < 2 ^ 32 - 2"
  shows "\<exists>r. HandleData_exec_loop enc maxRel aBuf past i s = Some r"
proof (induction "length aBuf - i" arbitrary: i s rule: less_induct)
  case less
  show ?case
  proof (cases "i < length aBuf")
    case False
    then show ?thesis by (simp add: HandleData_exec_loop_end)
  next
    case True
    obtain order charLen where g: "GetOrder_exec enc aBuf past i = (order, charLen)"
      by (cases "GetOrder_exec enc aBuf past i")
    note rg = GetOrder_exec_range [OF g]
    from rg True len have m: "(i + charLen) mod 2 ^ 32 = i + charLen" by auto
    from rg True have dec: "length aBuf - (i + charLen) < length aBuf - i" by auto
    have IH: "\<exists>r. HandleData_exec_loop enc maxRel aBuf past (i + charLen) s' = Some r" for s'
      using dec by (rule less.hyps)
    show ?thesis
      using True g m IH
      by (subst HandleData_exec_loop.simps) (simp add: Let_def split: sum.splits)
  qed
qed

lemma HandleData_exec_returns:
  "length aBuf < 2 ^ 32 - 2 \<Longrightarrow> \<exists>r. HandleData_exec enc maxRel s aBuf past = Some r"
  by (simp add: HandleData_exec_def HandleData_exec_loop_returns)

lemma run_exec_returns:
  assumes "\<forall>aBuf past. Exec_Ingest aBuf past \<in> set calls \<longrightarrow> length aBuf < 2 ^ 32 - 2"
  shows "\<exists>r. run_exec enc maxRel s calls = Some r"
  using assms
proof (induction calls arbitrary: s)
  case Nil
  then show ?case by simp
next
  case (Cons c calls)
  then have IH: "\<exists>r. run_exec enc maxRel s' calls = Some r" for s' by auto
  show ?case
  proof (cases c)
    case (Exec_Ingest aBuf past)
    with Cons.prems have "length aBuf < 2 ^ 32 - 2" by simp
    from HandleData_exec_returns [OF this, of enc maxRel s past] obtain r1 where
      "HandleData_exec enc maxRel s aBuf past = Some r1" by blast
    with Exec_Ingest IH show ?thesis by (cases r1) simp_all
  next
    case Exec_Reset
    with IH show ?thesis by simp
  qed
qed

lemmas exec_simps = HandleData_exec_def HandleData_exec_loop.simps GetOrder_exec_def
  SJIS_GetOrder_exec_def EUCJP_GetOrder_exec_def peek_def Let_def initial_state_list
  count_relation_1_3 count_relation_1_1

text \<open>
  A chunk that ends in a lead byte: the decoder reads the byte that follows the chunk,
  the loop discards the order and records one byte to skip, whatever that byte is.
\<close>

lemma final_lead_byte_as_executed:
  "HandleData_exec SJIS 1000 initial_state [0x82, 0xA0, 0x82] past =
     Some (Inr \<lparr>mRelSample = [0, 0, 0, 0, 0, 0], mTotalRel = 0, mDataThreshold = 0,
           mLastCharOrder = - 1, mNeedToSkipCharNum = 1, mDone = False\<rparr>)"
  by (simp add: exec_simps)

subsection \<open>C1: the total and the histogram\<close>

text \<open>
  C1 (as amended). After every sequence of \<^verbatim>\<open>HandleData\<close> and \<^verbatim>\<open>Reset\<close> calls on a
  fresh analyser, as executed, the six counters of \<^verbatim>\<open>mRelSample\<close> add up to \<^verbatim>\<open>mTotalRel\<close>
  as long as \<^verbatim>\<open>mDone\<close> is not set; once it is set, \<^verbatim>\<open>mTotalRel\<close> is one more than the sum,
  since the relation that crossed the bound is counted in the total and the loop is left
  before the histogram is updated. This holds after every call that returns, also one whose
  chunk ends in a lead byte, whatever follows the chunk in memory, and no call indexes
  the table or the counters out of range. Every call returns when the chunks are shorter
  than \<open>2^32 - 2\<close> bytes. The bound is any value below the largest \<^verbatim>\<open>uint32_t\<close>.
\<close>

theorem total_is_histogram_sum_until_done:
  assumes "unat maxRel < 2 ^ 32 - 1"
  shows "(\<forall>r. run_exec enc maxRel initial_state calls = Some r \<longrightarrow>
      (\<exists>s. r = Inr s \<and> length (mRelSample s) = 6 \<and>
        unat (mTotalRel s) = sum_list (map unat (mRelSample s)) + (if mDone s then 1 else 0))) \<and>
    ((\<forall>aBuf past. Exec_Ingest aBuf past \<in> set calls \<longrightarrow> length aBuf < 2 ^ 32 - 2) \<longrightarrow>
      (\<exists>r. run_exec enc maxRel initial_state calls = Some r))"
proof (intro conjI allI impI)
  fix r assume "run_exec enc maxRel initial_state calls = Some r"
  from state_inv_run_exec [OF assms this state_inv_initial]
  show "\<exists>s. r = Inr s \<and> length (mRelSample s) = 6 \<and>
        unat (mTotalRel s) = sum_list (map unat (mRelSample s)) + (if mDone s then 1 else 0)"
    by (auto simp: state_inv_def NUM_OF_CATEGORY_def)
next
  assume "\<forall>aBuf past. Exec_Ingest aBuf past \<in> set calls \<longrightarrow> length aBuf < 2 ^ 32 - 2"
  then show "\<exists>r. run_exec enc maxRel initial_state calls = Some r"
    by (rule run_exec_returns)
qed

theorem total_is_histogram_sum_until_done_witness:
  "unat (1000 :: u32) < 2 ^ 32 - 1 \<and>
   run_exec SJIS 1000 initial_state [Exec_Ingest [0x82, 0xA0, 0x82, 0xA2, 0x82] 0xA0] =
     Some (Inr \<lparr>mRelSample = [0, 0, 0, 0, 1, 0], mTotalRel = 1, mDataThreshold = 0,
           mLastCharOrder = - 1, mNeedToSkipCharNum = 1, mDone = False\<rparr>) \<and>
   length [0, 0, 0, 0, 1, 0 :: u32] = 6 \<and>
   unat (1 :: u32) = sum_list (map unat [0, 0, 0, 0, 1, 0 :: u32]) + (if False then 1 else 0)"
proof -
  have h1: "unat (1000 :: u32) < 2 ^ 32 - 1" by simp
  have h2: "run_exec SJIS 1000 initial_state [Exec_Ingest [0x82, 0xA0, 0x82, 0xA2, 0x82] 0xA0] =
     Some (Inr \<lparr>mRelSample = [0, 0, 0, 0, 1, 0], mTotalRel = 1, mDataThreshold = 0,
           mLastCharOrder = - 1, mNeedToSkipCharNum = 1, mDone = False\<rparr>)"
    by (simp add: exec_simps)
  have h3: "\<forall>aBuf past. Exec_Ingest aBuf past \<in> set [Exec_Ingest [0x82, 0xA0, 0x82, 0xA2, 0x82] 0xA0]
      \<longrightarrow> length aBuf < 2 ^ 32 - 2"
    by simp
  from total_is_histogram_sum_until_done [OF h1, of SJIS
      "[Exec_Ingest [0x82, 0xA0, 0x82, 0xA2, 0x82] 0xA0]"] h1 h2 h3
  show ?thesis by simp
qed

text \<open>
  C1 as stated fails in the state where \<^verbatim>\<open>mDone\<close> has just become true: with the bound
  1000, a chunk of 1002 copies of the Shift-JIS hiragana 0x82 0xA0 ends with a total of 1001
  and a histogram that sums to 1000, in the checked call and in the call as executed.
\<close>

theorem total_exceeds_histogram_sum_when_done:
  "HandleData SJIS 1000 initial_state (concat (replicate 1002 [0x82, 0xA0])) =
     Inr \<lparr>mRelSample = [0, 0, 0, 0, 1000, 0], mTotalRel = 1001, mDataThreshold = 0,
           mLastCharOrder = 1, mNeedToSkipCharNum = 0, mDone = True\<rparr> \<and>
   unat (1001 :: u32) \<noteq> sum_list (map unat [0, 0, 0, 0, 1000, 0 :: u32]) \<and>
   run_exec SJIS 1000 initial_state [Exec_Ingest (concat (replicate 1002 [0x82, 0xA0])) 0] =
     Some (Inr \<lparr>mRelSample = [0, 0, 0, 0, 1000, 0], mTotalRel = 1001, mDataThreshold = 0,
           mLastCharOrder = 1, mNeedToSkipCharNum = 0, mDone = True\<rparr>)"
  using done_state_1000 HandleData_exec_checked [OF done_state_1000, of 0] by simp

subsection \<open>C5: the confidence of the reachable states\<close>

text \<open>
  C5. In every state reached from the initial one by \<^verbatim>\<open>HandleData\<close> and \<^verbatim>\<open>Reset\<close>
  calls, as executed, \<^verbatim>\<open>GetConfidence\<close> returns the sentinel exactly when the total is at
  most the data threshold, and otherwise the total minus counter 0, divided by the total,
  which lies between 0 and 1; on the initial state it returns the sentinel. The reachable
  states include those after a chunk that ends in a lead byte, whatever follows the chunk
  in memory. The quotient is the exact one, and the bound is any value below the largest
  \<^verbatim>\<open>uint32_t\<close>.
\<close>

theorem GetConfidence_reachable:
  assumes "unat maxRel < 2 ^ 32 - 1"
    and "run_exec enc maxRel initial_state calls = Some r"
  shows "(\<exists>s. r = Inr s \<and>
      (GetConfidence s = DONT_KNOW \<longleftrightarrow> mTotalRel s \<le> mDataThreshold s) \<and>
      (if mTotalRel s \<le> mDataThreshold s then GetConfidence s = DONT_KNOW
       else GetConfidence s =
              (real (unat (mTotalRel s)) - real (unat (mRelSample s ! 0))) / real (unat (mTotalRel s)) \<and>
            0 \<le> GetConfidence s \<and> GetConfidence s \<le> 1)) \<and>
    GetConfidence initial_state = DONT_KNOW"
proof -
  from state_inv_run_exec [OF assms state_inv_initial] obtain s where
    s: "r = Inr s" "state_inv maxRel s" by blast
  note c = state_inv_confidence [OF s(2)]
  have i: "GetConfidence initial_state = DONT_KNOW"
    by (simp add: GetConfidence_def initial_state_def)
  have "\<exists>s. r = Inr s \<and>
      (GetConfidence s = DONT_KNOW \<longleftrightarrow> mTotalRel s \<le> mDataThreshold s) \<and>
      (if mTotalRel s \<le> mDataThreshold s then GetConfidence s = DONT_KNOW
       else GetConfidence s =
              (real (unat (mTotalRel s)) - real (unat (mRelSample s ! 0))) / real (unat (mTotalRel s)) \<and>
            0 \<le> GetConfidence s \<and> GetConfidence s \<le> 1)"
    by (rule exI [of _ s]) (intro conjI, rule s(1), rule c [THEN conjunct1], rule c [THEN conjunct2])
  with i show ?thesis by (rule conjI [rotated])
qed

theorem GetConfidence_reachable_witness:
  "unat (1000 :: u32) < 2 ^ 32 - 1 \<and>
   run_exec EUCJP 1000 initial_state [Exec_Ingest [0xA4, 0xA2, 0xA4, 0xA4, 0xA4] 0x00] =
     Some (Inr \<lparr>mRelSample = [0, 0, 0, 0, 1, 0], mTotalRel = 1, mDataThreshold = 0,
           mLastCharOrder = - 1, mNeedToSkipCharNum = 1, mDone = False\<rparr>) \<and>
   GetConfidence \<lparr>mRelSample = [0, 0, 0, 0, 1, 0], mTotalRel = 1, mDataThreshold = 0,
           mLastCharOrder = - 1, mNeedToSkipCharNum = 1, mDone = False\<rparr> = 1 \<and>
   GetConfidence initial_state = DONT_KNOW"
proof -
  have h1: "unat (1000 :: u32) < 2 ^ 32 - 1" by simp
  have h2: "run_exec EUCJP 1000 initial_state [Exec_Ingest [0xA4, 0xA2, 0xA4, 0xA4, 0xA4] 0x00] =
     Some (Inr \<lparr>mRelSample = [0, 0, 0, 0, 1, 0], mTotalRel = 1, mDataThreshold = 0,
           mLastCharOrder = - 1, mNeedToSkipCharNum = 1, mDone = False\<rparr>)"
    by (simp add: exec_simps)
  from GetConfidence_reachable [OF h1 h2] h1 h2 show ?thesis by simp
qed

end
